theory Spec2Isabelle
  imports Complex_Main "HOL-Library.Product_Lexorder" "HOL-Library.AList"
begin

section \<open>The line diff used by the edit loop\<close>

text \<open>
  \<^verbatim>\<open>NodesConfig.edit\<close> calls \<^verbatim>\<open>difflib.unified_diff(nc_list, edited_nc_list, lineterm="")\<close>
  twice per attempt. The functions below follow CPython's \<^verbatim>\<open>Lib/difflib.py\<close>
  (\<^verbatim>\<open>SequenceMatcher(None, a, b)\<close> with the default \<^verbatim>\<open>autojunk=True\<close>, then
  \<^verbatim>\<open>get_grouped_opcodes(3)\<close>), method by method and under the methods' names.
  Indices are natural numbers; the sequences are lists of lines.
\<close>

subsection \<open>\<^verbatim>\<open>__chain_b\<close>: the index of \<open>b\<close>\<close>

text \<open>
  \<^verbatim>\<open>b2j[x]\<close> is the increasing list of the indices at which \<open>x\<close> occurs in \<open>b\<close>.
  No element is junk (\<^verbatim>\<open>isjunk\<close> is \<^verbatim>\<open>None\<close>, so \<^verbatim>\<open>bjunk\<close> is the empty set).
  With \<^verbatim>\<open>autojunk\<close> and \<^verbatim>\<open>n >= 200\<close>, an element that occurs more than
  \<^verbatim>\<open>n // 100 + 1\<close> times is popular and is deleted from \<^verbatim>\<open>b2j\<close>.
\<close>

definition positions :: "'a list \<Rightarrow> 'a \<Rightarrow> nat list" where
  "positions b x = filter (\<lambda>j. b ! j = x) [0..<length b]"

definition popular :: "'a list \<Rightarrow> 'a \<Rightarrow> bool" where
  "popular b x \<longleftrightarrow> length b \<ge> 200 \<and> length (positions b x) > length b div 100 + 1"

text \<open>\<^verbatim>\<open>b2j.get(x, nothing)\<close>, where \<^verbatim>\<open>nothing = []\<close>.\<close>

definition b2j_get :: "'a list \<Rightarrow> 'a \<Rightarrow> nat list" where
  "b2j_get b x = (if popular b x then [] else positions b x)"

definition isbjunk :: "'a \<Rightarrow> bool" where
  "isbjunk x = False"

subsection \<open>\<^verbatim>\<open>find_longest_match\<close>\<close>

text \<open>
  The state of the two nested loops is \<open>(j2len, besti, bestj, bestsize)\<close>. The dictionary
  \<^verbatim>\<open>j2len\<close> holds positive lengths only and is read with \<^verbatim>\<open>get(j-1, 0)\<close>, so it is a
  function into the naturals with 0 for an absent key; at \<open>j = 0\<close> the key \<open>-1\<close> is
  absent. The inner loop skips indices below \<open>blo\<close> (\<^verbatim>\<open>continue\<close>) and stops at the
  first one from \<open>bhi\<close> on (\<^verbatim>\<open>break\<close>).
\<close>

type_synonym flm_state = "(nat \<Rightarrow> nat) \<times> nat \<times> nat \<times> nat"

fun flm_inner :: "nat \<Rightarrow> nat \<Rightarrow> nat \<Rightarrow> (nat \<Rightarrow> nat) \<Rightarrow> nat list \<Rightarrow> flm_state \<Rightarrow> flm_state" where
  "flm_inner i blo bhi j2len [] st = st"
| "flm_inner i blo bhi j2len (j # js) (newj2len, besti, bestj, bestsize) =
     (if j < blo then flm_inner i blo bhi j2len js (newj2len, besti, bestj, bestsize)
      else if j \<ge> bhi then (newj2len, besti, bestj, bestsize)
      else
        (let k = (if j = 0 then 0 else j2len (j - 1)) + 1 in
         if k > bestsize
         then flm_inner i blo bhi j2len js (newj2len(j := k), i + 1 - k, j + 1 - k, k)
         else flm_inner i blo bhi j2len js (newj2len(j := k), besti, bestj, bestsize)))"

fun flm_outer :: "'a list \<Rightarrow> 'a list \<Rightarrow> nat \<Rightarrow> nat \<Rightarrow> nat list \<Rightarrow> flm_state \<Rightarrow> flm_state" where
  "flm_outer a b blo bhi [] st = st"
| "flm_outer a b blo bhi (i # is) (j2len, besti, bestj, bestsize) =
     flm_outer a b blo bhi is
       (flm_inner i blo bhi j2len (b2j_get b (a ! i)) (\<lambda>_. 0, besti, bestj, bestsize))"

text \<open>
  The four \<^verbatim>\<open>while\<close> loops that extend the match at both ends: first over elements
  that are not junk, then over junk ones. \<open>P\<close> is the test on \<^verbatim>\<open>b[bestj-1]\<close>,
  respectively \<^verbatim>\<open>b[bestj+bestsize]\<close>.
\<close>

function extend_lo :: "('a \<Rightarrow> bool) \<Rightarrow> 'a list \<Rightarrow> 'a list \<Rightarrow> nat \<Rightarrow> nat \<Rightarrow>
    nat \<times> nat \<times> nat \<Rightarrow> nat \<times> nat \<times> nat" where
  "extend_lo P a b alo blo (besti, bestj, bestsize) =
     (if besti > alo \<and> bestj > blo \<and> P (b ! (bestj - 1)) \<and> a ! (besti - 1) = b ! (bestj - 1)
      then extend_lo P a b alo blo (besti - 1, bestj - 1, bestsize + 1)
      else (besti, bestj, bestsize))"
  by pat_completeness auto
termination
  by (relation "measure (\<lambda>(P, a, b, alo, blo, besti, bestj, bestsize). besti)") auto

function extend_hi :: "('a \<Rightarrow> bool) \<Rightarrow> 'a list \<Rightarrow> 'a list \<Rightarrow> nat \<Rightarrow> nat \<Rightarrow>
    nat \<times> nat \<times> nat \<Rightarrow> nat \<times> nat \<times> nat" where
  "extend_hi P a b ahi bhi (besti, bestj, bestsize) =
     (if besti + bestsize < ahi \<and> bestj + bestsize < bhi \<and> P (b ! (bestj + bestsize)) \<and>
         a ! (besti + bestsize) = b ! (bestj + bestsize)
      then extend_hi P a b ahi bhi (besti, bestj, bestsize + 1)
      else (besti, bestj, bestsize))"
  by pat_completeness auto
termination
  by (relation "measure (\<lambda>(P, a, b, ahi, bhi, besti, bestj, bestsize). ahi - (besti + bestsize))") auto

definition find_longest_match :: "'a list \<Rightarrow> 'a list \<Rightarrow> nat \<Rightarrow> nat \<Rightarrow> nat \<Rightarrow> nat \<Rightarrow> nat \<times> nat \<times> nat" where
  "find_longest_match a b alo ahi blo bhi =
     (let (j2len, best) = flm_outer a b blo bhi [alo..<ahi] (\<lambda>_. 0, alo, blo, 0);
          best = extend_lo (\<lambda>x. \<not> isbjunk x) a b alo blo best;
          best = extend_hi (\<lambda>x. \<not> isbjunk x) a b ahi bhi best;
          best = extend_lo isbjunk a b alo blo best;
          best = extend_hi isbjunk a b ahi bhi best
      in best)"

subsection \<open>The match stays inside the range of \<open>a\<close>\<close>

text \<open>
  Needed for the termination of the loop of \<^verbatim>\<open>get_matching_blocks\<close>: the block found
  in \<^verbatim>\<open>a[alo:ahi]\<close> lies in that range, so the two ranges queued after a non-empty
  block are shorter.
\<close>

lemma flm_inner_step:
  "\<not> j < blo \<Longrightarrow> \<not> bhi \<le> j \<Longrightarrow> k = (if j = 0 then 0 else j2len (j - 1)) + 1 \<Longrightarrow>
   flm_inner i blo bhi j2len (j # js) (nj, besti, bestj, bestsize) =
     (if k > bestsize then flm_inner i blo bhi j2len js (nj(j := k), i + 1 - k, j + 1 - k, k)
      else flm_inner i blo bhi j2len js (nj(j := k), besti, bestj, bestsize))"
  by (simp add: Let_def)

lemma flm_inner_a:
  "alo \<le> i \<Longrightarrow> (\<forall>j. j2len j \<le> i - alo) \<Longrightarrow> alo \<le> besti \<and> besti + bestsize \<le> i + 1 \<Longrightarrow>
   (\<forall>j. nj j \<le> i + 1 - alo) \<Longrightarrow>
   flm_inner i blo bhi j2len js (nj, besti, bestj, bestsize) = (nj', bi', bj', bs') \<Longrightarrow>
   alo \<le> bi' \<and> bi' + bs' \<le> i + 1 \<and> (\<forall>j. nj' j \<le> i + 1 - alo)"
proof (induction js arbitrary: nj besti bestj bestsize)
  case Nil
  then show ?case by simp
next
  case (Cons j js)
  define k where "k = (if j = 0 then 0 else j2len (j - 1)) + 1"
  have k: "k \<le> i + 1 - alo"
  proof -
    have "(if j = 0 then 0 else j2len (j - 1)) \<le> i - alo" using Cons.prems(2) by simp
    then show ?thesis using Cons.prems(1) unfolding k_def by linarith
  qed
  show ?case
  proof (cases "j < blo")
    case True
    with Cons show ?thesis by simp
  next
    case nb: False
    show ?thesis
    proof (cases "j \<ge> bhi")
      case True
      with nb Cons.prems show ?thesis by simp
    next
      case False
      note step = flm_inner_step[where j=j and blo=blo and bhi=bhi and k=k and ?j2len=j2len, OF nb False k_def]
      have nj: "\<forall>x. (nj(j := k)) x \<le> i + 1 - alo" using Cons.prems(4) k by simp
      show ?thesis
      proof (cases "k > bestsize")
        case True
        have e: "flm_inner i blo bhi j2len js (nj(j := k), i + 1 - k, j + 1 - k, k) = (nj', bi', bj', bs')"
          using Cons.prems(5) step True by simp
        have "alo \<le> i + 1 - k \<and> i + 1 - k + k \<le> i + 1" using k Cons.prems(1) by linarith
        from Cons.IH[OF Cons.prems(1,2) this nj e] show ?thesis .
      next
        case F2: False
        have e: "flm_inner i blo bhi j2len js (nj(j := k), besti, bestj, bestsize) = (nj', bi', bj', bs')"
          using Cons.prems(5) step F2 by simp
        from Cons.IH[OF Cons.prems(1,2,3) nj e] show ?thesis .
      qed
    qed
  qed
qed

lemma flm_outer_a:
  "alo \<le> m \<Longrightarrow> (\<forall>j. j2len j \<le> m - alo) \<Longrightarrow> alo \<le> besti \<and> besti + bestsize \<le> max alo m \<Longrightarrow>
   flm_outer a b blo bhi [m..<ahi] (j2len, besti, bestj, bestsize) = (j2len', bi', bj', bs') \<Longrightarrow>
   alo \<le> bi' \<and> bi' + bs' \<le> max m ahi"
proof (induction "ahi - m" arbitrary: m j2len besti bestj bestsize)
  case 0
  then show ?case by simp
next
  case (Suc n)
  then have lt: "m < ahi" by linarith
  then have upt: "[m..<ahi] = m # [Suc m..<ahi]" by (simp add: upt_rec)
  obtain nj bi bj bs where inner:
    "flm_inner m blo bhi j2len (b2j_get b (a ! m)) (\<lambda>_. 0, besti, bestj, bestsize) = (nj, bi, bj, bs)"
    by (metis prod_cases4)
  have pre: "alo \<le> besti \<and> besti + bestsize \<le> m + 1" using Suc.prems(1,3) by auto
  have z: "\<forall>j. (\<lambda>_. 0::nat) j \<le> m + 1 - alo" by simp
  from flm_inner_a[OF Suc.prems(1,2) pre z inner]
  have post: "alo \<le> bi \<and> bi + bs \<le> m + 1 \<and> (\<forall>j. nj j \<le> m + 1 - alo)" .
  have e: "flm_outer a b blo bhi [Suc m..<ahi] (nj, bi, bj, bs) = (j2len', bi', bj', bs')"
    using Suc.prems(4) upt inner by simp
  have n: "n = ahi - Suc m" using Suc.hyps(2) by linarith
  have "alo \<le> bi' \<and> bi' + bs' \<le> max (Suc m) ahi"
    by (rule Suc.hyps(1)[OF n _ _ _ e]) (use post Suc.prems(1) in auto)
  then show ?case using lt by auto
qed

lemma extend_lo_a:
  "alo \<le> besti \<and> besti + bestsize \<le> hi \<Longrightarrow>
   extend_lo P a b alo blo (besti, bestj, bestsize) = (bi', bj', bs') \<Longrightarrow>
   alo \<le> bi' \<and> bi' + bs' \<le> hi"
proof (induction P a b alo blo "(besti, bestj, bestsize)" arbitrary: besti bestj bestsize rule: extend_lo.induct)
  case (1 P a b alo blo besti bestj bestsize)
  show ?case
  proof (cases "besti > alo \<and> bestj > blo \<and> P (b ! (bestj - 1)) \<and> a ! (besti - 1) = b ! (bestj - 1)")
    case True
    then have e: "extend_lo P a b alo blo (besti - 1, bestj - 1, bestsize + 1) = (bi', bj', bs')"
      using "1.prems"(2) by (subst (asm) extend_lo.simps) simp
    show ?thesis
      by (rule "1.hyps"[OF True _ e]) (use True "1.prems"(1) in auto)
  next
    case False
    then show ?thesis using "1.prems" by (subst (asm) extend_lo.simps) auto
  qed
qed

lemma extend_hi_a:
  "alo \<le> besti \<and> besti + bestsize \<le> max alo ahi \<Longrightarrow>
   extend_hi P a b ahi bhi (besti, bestj, bestsize) = (bi', bj', bs') \<Longrightarrow>
   alo \<le> bi' \<and> bi' + bs' \<le> max alo ahi"
proof (induction P a b ahi bhi "(besti, bestj, bestsize)" arbitrary: besti bestj bestsize rule: extend_hi.induct)
  case (1 P a b ahi bhi besti bestj bestsize)
  show ?case
  proof (cases "besti + bestsize < ahi \<and> bestj + bestsize < bhi \<and> P (b ! (bestj + bestsize)) \<and>
         a ! (besti + bestsize) = b ! (bestj + bestsize)")
    case True
    then have e: "extend_hi P a b ahi bhi (besti, bestj, bestsize + 1) = (bi', bj', bs')"
      using "1.prems"(2) by (subst (asm) extend_hi.simps) simp
    show ?thesis
      by (rule "1.hyps"[OF True _ e]) (use True "1.prems"(1) in auto)
  next
    case False
    then show ?thesis using "1.prems" by (subst (asm) extend_hi.simps) auto
  qed
qed

lemma flm_a_bounds:
  assumes "find_longest_match a b alo ahi blo bhi = (i, j, k)"
  shows "alo \<le> i \<and> i + k \<le> max alo ahi"
proof -
  obtain j0 i0 jj0 k0 where o: "flm_outer a b blo bhi [alo..<ahi] (\<lambda>_. 0, alo, blo, 0) = (j0, i0, jj0, k0)"
    by (metis prod_cases4)
  obtain i1 j1 k1 where e1: "extend_lo (\<lambda>x. \<not> isbjunk x) a b alo blo (i0, jj0, k0) = (i1, j1, k1)"
    by (metis prod_cases3)
  obtain i2 j2 k2 where e2: "extend_hi (\<lambda>x. \<not> isbjunk x) a b ahi bhi (i1, j1, k1) = (i2, j2, k2)"
    by (metis prod_cases3)
  obtain i3 j3 k3 where e3: "extend_lo isbjunk a b alo blo (i2, j2, k2) = (i3, j3, k3)"
    by (metis prod_cases3)
  have e4: "extend_hi isbjunk a b ahi bhi (i3, j3, k3) = (i, j, k)"
    using assms o e1 e2 e3 by (simp add: find_longest_match_def)
  have b0: "alo \<le> i0 \<and> i0 + k0 \<le> max alo ahi"
    using flm_outer_a[OF _ _ _ o, of alo] by simp
  note b1 = extend_lo_a[OF b0 e1]
  note b2 = extend_hi_a[OF b1 e2]
  note b3 = extend_lo_a[OF b2 e3]
  show ?thesis by (rule extend_hi_a[OF b3 e4])
qed

subsection \<open>\<^verbatim>\<open>get_matching_blocks\<close>\<close>

text \<open>
  \<^verbatim>\<open>queue.pop()\<close> takes the last element and \<^verbatim>\<open>queue.append\<close> adds at the end: the
  queue is a stack, kept here with its top at the head of the list. The range to the left
  of the block is pushed first, the range to its right second.
\<close>

type_synonym block = "nat \<times> nat \<times> nat"

function mb_loop :: "'a list \<Rightarrow> 'a list \<Rightarrow> (nat \<times> nat \<times> nat \<times> nat) list \<Rightarrow> block list \<Rightarrow> block list" where
  "mb_loop a b [] matching_blocks = matching_blocks"
| "mb_loop a b ((alo, ahi, blo, bhi) # queue) matching_blocks =
     (case find_longest_match a b alo ahi blo bhi of
        (i, j, k) \<Rightarrow>
          if k \<noteq> 0
          then mb_loop a b
                 ((if i + k < ahi \<and> j + k < bhi then [(i + k, ahi, j + k, bhi)] else []) @
                  (if alo < i \<and> blo < j then [(alo, i, blo, j)] else []) @ queue)
                 (matching_blocks @ [(i, j, k)])
          else mb_loop a b queue matching_blocks)"
  by pat_completeness auto
termination
proof (relation "measure (\<lambda>(a, b, queue, mbs). sum_list (map (\<lambda>(alo, ahi, blo, bhi). 2 * (ahi - alo) + 1) queue))",
    goal_cases)
  case 1
  show ?case by simp
next
  case (2 a b alo ahi blo bhi queue matching_blocks i y j k)
  then have "find_longest_match a b alo ahi blo bhi = (i, j, k)" by simp
  from flm_a_bounds[OF this] 2 have "alo \<le> i" "i + k \<le> ahi"
    by (auto simp: max_def split: if_splits)
  with 2 show ?case by auto
next
  case 3
  show ?case by simp
qed

text \<open>
  The loop that collapses adjacent blocks; its state is the pending block
  \<open>(i1, j1, k1)\<close> and the list \<^verbatim>\<open>non_adjacent\<close>.
\<close>

fun collapse :: "block list \<Rightarrow> block \<Rightarrow> block list \<Rightarrow> block list" where
  "collapse [] (i1, j1, k1) non_adjacent =
     (if k1 \<noteq> 0 then non_adjacent @ [(i1, j1, k1)] else non_adjacent)"
| "collapse ((i2, j2, k2) # rest) (i1, j1, k1) non_adjacent =
     (if i1 + k1 = i2 \<and> j1 + k1 = j2 then collapse rest (i1, j1, k1 + k2) non_adjacent
      else collapse rest (i2, j2, k2)
             (if k1 \<noteq> 0 then non_adjacent @ [(i1, j1, k1)] else non_adjacent))"

text \<open>\<^verbatim>\<open>matching_blocks.sort()\<close> orders the triples lexicographically.\<close>

definition get_matching_blocks :: "'a list \<Rightarrow> 'a list \<Rightarrow> block list" where
  "get_matching_blocks a b =
     collapse (sort (mb_loop a b [(0, length a, 0, length b)] [])) (0, 0, 0) [] @
     [(length a, length b, 0)]"

subsection \<open>\<^verbatim>\<open>get_opcodes\<close> and \<^verbatim>\<open>get_grouped_opcodes\<close>\<close>

datatype tag = Replace | Delete | Insert | Equal

type_synonym opcode = "tag \<times> nat \<times> nat \<times> nat \<times> nat"

fun opcodes_loop :: "block list \<Rightarrow> nat \<Rightarrow> nat \<Rightarrow> opcode list" where
  "opcodes_loop [] i j = []"
| "opcodes_loop ((ai, bj, size') # rest) i j =
     (if i < ai \<and> j < bj then [(Replace, i, ai, j, bj)]
      else if i < ai then [(Delete, i, ai, j, bj)]
      else if j < bj then [(Insert, i, ai, j, bj)]
      else []) @
     (if size' \<noteq> 0 then [(Equal, ai, ai + size', bj, bj + size')] else []) @
     opcodes_loop rest (ai + size') (bj + size')"

definition get_opcodes :: "'a list \<Rightarrow> 'a list \<Rightarrow> opcode list" where
  "get_opcodes a b = opcodes_loop (get_matching_blocks a b) 0 0"

text \<open>
  The generator's loop: \<open>group\<close> is the group under construction, the result the list
  of the groups yielded. In Python \<^verbatim>\<open>max(i1, i2-n)\<close> is \<open>i1\<close> when \<open>i2 - n\<close> is negative;
  so it is with the truncating subtraction of the naturals.
\<close>

fun group_loop :: "nat \<Rightarrow> opcode list \<Rightarrow> opcode list \<Rightarrow> opcode list list" where
  "group_loop n [] group' =
     (if group' \<noteq> [] \<and> \<not> (length group' = 1 \<and> fst (hd group') = Equal) then [group'] else [])"
| "group_loop n ((tag, i1, i2, j1, j2) # codes) group' =
     (if tag = Equal \<and> i2 - i1 > n + n
      then (group' @ [(tag, i1, min i2 (i1 + n), j1, min j2 (j1 + n))]) #
           group_loop n codes [(tag, max i1 (i2 - n), i2, max j1 (j2 - n), j2)]
      else group_loop n codes (group' @ [(tag, i1, i2, j1, j2)]))"

definition fix_first :: "nat \<Rightarrow> opcode list \<Rightarrow> opcode list" where
  "fix_first n codes =
     (case codes ! 0 of (tag, i1, i2, j1, j2) \<Rightarrow>
        if tag = Equal then codes[0 := (tag, max i1 (i2 - n), i2, max j1 (j2 - n), j2)]
        else codes)"

definition fix_last :: "nat \<Rightarrow> opcode list \<Rightarrow> opcode list" where
  "fix_last n codes =
     (case codes ! (length codes - 1) of (tag, i1, i2, j1, j2) \<Rightarrow>
        if tag = Equal
        then codes[length codes - 1 := (tag, i1, min i2 (i1 + n), j1, min j2 (j1 + n))]
        else codes)"

definition get_grouped_opcodes :: "'a list \<Rightarrow> 'a list \<Rightarrow> nat \<Rightarrow> opcode list list" where
  "get_grouped_opcodes a b n =
     (let codes = get_opcodes a b;
          codes = (if codes = [] then [(Equal, 0, 1, 0, 1)] else codes);
          codes = fix_first n codes;
          codes = fix_last n codes
      in group_loop n codes [])"

subsection \<open>\<^verbatim>\<open>unified_diff\<close>\<close>

function str_nat :: "nat \<Rightarrow> string" where
  "str_nat n = (if n < 10 then [''0123456789'' ! n] else str_nat (n div 10) @ [''0123456789'' ! (n mod 10)])"
  by pat_completeness auto
termination
  by (relation "measure id") auto

definition format_range_unified :: "nat \<Rightarrow> nat \<Rightarrow> string" where
  "format_range_unified start stop =
     (let beginning = start + 1; length = stop - start in
      if length = 1 then str_nat beginning
      else str_nat (if length = 0 then beginning - 1 else beginning) @ '','' @ str_nat length)"

text \<open>The slice \<^verbatim>\<open>a[i1:i2]\<close>, for \<open>0 \<le> i1\<close> and \<open>0 \<le> i2\<close>.\<close>

definition slice :: "'a list \<Rightarrow> nat \<Rightarrow> nat \<Rightarrow> 'a list" where
  "slice xs i1 i2 = take (i2 - i1) (drop i1 xs)"

fun opcode_lines :: "string list \<Rightarrow> string list \<Rightarrow> opcode \<Rightarrow> string list" where
  "opcode_lines a b (tag, i1, i2, j1, j2) =
     (if tag = Equal then map (\<lambda>line. '' '' @ line) (slice a i1 i2)
      else
        (if tag \<in> {Replace, Delete} then map (\<lambda>line. ''-'' @ line) (slice a i1 i2) else []) @
        (if tag \<in> {Replace, Insert} then map (\<lambda>line. ''+'' @ line) (slice b j1 j2) else []))"

definition hunk :: "string list \<Rightarrow> string list \<Rightarrow> opcode list \<Rightarrow> string list" where
  "hunk a b group' =
     (case (hd group', last group') of
        ((_, f1, _, f3, _), (_, _, l2, _, l4)) \<Rightarrow>
          (''@@ -'' @ format_range_unified f1 l2 @ '' +'' @ format_range_unified f3 l4 @ '' @@'') #
          concat (map (opcode_lines a b) group'))"

text \<open>
  With the defaults \<^verbatim>\<open>fromfile=''\<close>, \<^verbatim>\<open>tofile=''\<close>, no dates, \<^verbatim>\<open>n=3\<close>, and
  \<^verbatim>\<open>lineterm=""\<close> as \<^verbatim>\<open>edit\<close> passes it. The two header lines come before the first
  hunk only; no group, no line.
\<close>

definition unified_diff :: "string list \<Rightarrow> string list \<Rightarrow> string list" where
  "unified_diff a b =
     (case get_grouped_opcodes a b 3 of
        [] \<Rightarrow> []
      | groups \<Rightarrow> [''--- '', ''+++ ''] @ concat (map (hunk a b) groups))"

section \<open>Parsed documents and the Python operations applied to them\<close>

text \<open>
  What \<^verbatim>\<open>json.loads\<close> returns. An \<^verbatim>\<open>int\<close> is unbounded; a \<^verbatim>\<open>float\<close> is given by the
  rational it holds exactly, or is one of the values that hold none; a \<^verbatim>\<open>dict\<close> is the
  list of its items in insertion order, its keys distinct.
\<close>

datatype pyfloat = Finite rat | NegZero | PosInf | NegInf | NaN

datatype json =
    JNull
  | JBool bool
  | JInt int
  | JFloat pyfloat
  | JStr string
  | JArr "json list"
  | JObj "(string \<times> json) list"

datatype exn =
    EditorError string
  | JSONDecodeError
  | NCMError string
  | AttributeError
  | KeyError
  | TypeError
  | OSError

subsection \<open>Python's \<^verbatim>\<open>==\<close>\<close>

text \<open>
  \<^verbatim>\<open>bool\<close> is a subclass of \<^verbatim>\<open>int\<close>, and an \<^verbatim>\<open>int\<close> is compared with a \<^verbatim>\<open>float\<close> by
  value: \<^verbatim>\<open>True == 1\<close>, \<^verbatim>\<open>5 == 5.0\<close>, \<^verbatim>\<open>0.0 == -0.0\<close>. \<^verbatim>\<open>nan\<close> equals nothing, itself
  included.
\<close>

datatype pynum = Num rat | PlusInfinity | MinusInfinity

fun num_val :: "json \<Rightarrow> pynum option" where
  "num_val (JBool b) = Some (Num (if b then 1 else 0))"
| "num_val (JInt i) = Some (Num (of_int i))"
| "num_val (JFloat (Finite r)) = Some (Num r)"
| "num_val (JFloat NegZero) = Some (Num 0)"
| "num_val (JFloat PosInf) = Some PlusInfinity"
| "num_val (JFloat NegInf) = Some MinusInfinity"
| "num_val _ = None"

text \<open>
  A list or a dict compares its items with \<^verbatim>\<open>PyObject_RichCompareBool\<close>, which answers
  true for one and the same object before it tries \<^verbatim>\<open>==\<close>. Two documents parsed apart
  share no object but the \<^verbatim>\<open>nan\<close> of \<^verbatim>\<open>json.decoder\<close>, which is one object for every
  \<^verbatim>\<open>NaN\<close> in every parsed text.
\<close>

fun is_same :: "json \<Rightarrow> json \<Rightarrow> bool" where
  "is_same (JFloat NaN) (JFloat NaN) = True"
| "is_same _ _ = False"

lemma map_of_size [termination_simp]:
  "map_of n k = Some w \<Longrightarrow> size w < Suc (size_list (size_prod (\<lambda>_. 0) size) n)"
  by (induction n) (auto split: if_splits)

fun py_eq :: "json \<Rightarrow> json \<Rightarrow> bool" where
  "py_eq JNull JNull = True"
| "py_eq (JStr s) (JStr t) = (s = t)"
| "py_eq (JArr xs) (JArr ys) =
     (length xs = length ys \<and> list_all2 (\<lambda>x y. is_same x y \<or> py_eq x y) xs ys)"
| "py_eq (JObj m) (JObj n) =
     (length m = length n \<and>
      list_all (\<lambda>(k, v). case map_of n k of None \<Rightarrow> False | Some w \<Rightarrow> is_same v w \<or> py_eq v w) m)"
| "py_eq x y = (num_val x \<noteq> None \<and> num_val x = num_val y)"

subsection \<open>The operations of \<^verbatim>\<open>edit\<close> on a document\<close>

text \<open>
  \<^verbatim>\<open>d.get(key, default)\<close>: only a dict has the method; on anything else the attribute
  lookup raises \<^verbatim>\<open>AttributeError\<close>.
\<close>

definition dict_get :: "(string \<times> json) list \<Rightarrow> string \<Rightarrow> json \<Rightarrow> json" where
  "dict_get m key dflt = (case map_of m key of Some v \<Rightarrow> v | None \<Rightarrow> dflt)"

text \<open>
  \<^verbatim>\<open>d[key]\<close> with a string key: \<^verbatim>\<open>KeyError\<close> on a dict without the key,
  \<^verbatim>\<open>TypeError\<close> on a list or a string (their indices are integers) and on the values
  that are not subscriptable.
\<close>

definition getitem :: "json \<Rightarrow> string \<Rightarrow> exn + json" where
  "getitem d key =
     (case d of
        JObj m \<Rightarrow> (case map_of m key of Some v \<Rightarrow> Inr v | None \<Rightarrow> Inl KeyError)
      | _ \<Rightarrow> Inl TypeError)"

text \<open>
  \<^verbatim>\<open>x + 1\<close>. The sum of a \<^verbatim>\<open>float\<close> and 1 is rounded to a \<^verbatim>\<open>float\<close> again; the
  rounding \<open>rnd\<close> of the platform is a parameter.
\<close>

fun add_one :: "(rat \<Rightarrow> pyfloat) \<Rightarrow> json \<Rightarrow> exn + json" where
  "add_one rnd (JInt i) = Inr (JInt (i + 1))"
| "add_one rnd (JBool b) = Inr (JInt ((if b then 1 else 0) + 1))"
| "add_one rnd (JFloat (Finite r)) = Inr (JFloat (rnd (r + 1)))"
| "add_one rnd (JFloat NegZero) = Inr (JFloat (Finite 1))"
| "add_one rnd (JFloat f) = Inr (JFloat f)"
| "add_one rnd _ = Inl TypeError"

text \<open>\<^verbatim>\<open>d[key] = v\<close> on a dict: the value of a present key is replaced in place, a new key goes last.\<close>

definition setitem :: "(string \<times> json) list \<Rightarrow> string \<Rightarrow> json \<Rightarrow> (string \<times> json) list" where
  "setitem m key v = AList.update key v m"

text \<open>\<^verbatim>\<open>s.split("\n")\<close>: never empty.\<close>

fun split_nl :: "string \<Rightarrow> string list" where
  "split_nl [] = [[]]"
| "split_nl (c # cs) =
     (if c = CHR 0x0A then [] # split_nl cs
      else (c # hd (split_nl cs)) # tl (split_nl cs))"

section \<open>\<^verbatim>\<open>NodesConfig.edit\<close>\<close>

subsection \<open>The libraries the command calls\<close>

text \<open>
  The functions of other packages that \<^verbatim>\<open>edit\<close> calls and that depend on their argument
  only are parameters of the model:
  \<^item> \<open>json_loads\<close> is \<^verbatim>\<open>json.loads\<close>, \<open>None\<close> when it raises \<^verbatim>\<open>JSONDecodeError\<close>;
  \<^item> \<open>json_dumps\<close> is \<^verbatim>\<open>json.dumps(_, indent=4, sort_keys=True)\<close>;
  \<^item> \<open>json_to_nodes_configuration\<close> is the function of that name of
    \<^verbatim>\<open>logdevice.ops.nodes_configuration_manager\<close>, \<open>Inl\<close> the text of the exception it
    raises;
  \<^item> \<open>float_round\<close> rounds a rational to a \<^verbatim>\<open>float\<close>.
\<close>

record 'bin lib =
  json_loads :: "string \<Rightarrow> json option"
  json_dumps :: "json \<Rightarrow> string"
  json_to_nodes_configuration :: "string \<Rightarrow> string + 'bin"
  float_round :: "rat \<Rightarrow> pyfloat"

text \<open>
  What the world answers during one pass through the body of the \<^verbatim>\<open>while\<close> loop: the
  exit status of the editor and the text it left in the temporary file, the clock
  (\<^verbatim>\<open>int(time.time() * 1000)\<close>), the answer to \<^verbatim>\<open>ask_prompt\<close>, the exception text of
  \<^verbatim>\<open>overwrite_nodes_configuration\<close> if it raises, and the answer to \<^verbatim>\<open>confirm_prompt\<close>.
  A pass reads only the answers it gets to.
\<close>

record answers =
  returncode :: int
  saved_text :: string
  now_ms :: int
  choice :: string
  overwrite_error :: "string option"
  try_again :: bool

text \<open>What the command does to the world, in order.\<close>

datatype 'bin action =
    GetClient
  | GetNodesConfig
  | RunEditor string
  | Cprint string
  | CprintExn exn
  | PrintLines "string list"
  | AskPrompt
  | ConfirmPrompt
  | JsonToNodesConfiguration string
  | OverwriteNodesConfiguration 'bin

subsection \<open>\<^verbatim>\<open>_edit_text_with_editor\<close>\<close>

text \<open>
  The temporary file is written with the text given, the editor runs on it, and the file is read
  back only after the test of the exit status.
\<close>

definition edit_text_with_editor :: "answers \<Rightarrow> string \<Rightarrow> exn + string" where
  "edit_text_with_editor w text' =
     (if returncode w \<noteq> 0 then Inl (EditorError ''Non-zero return code from editor'')
      else Inr (saved_text w))"

subsection \<open>Lines 139 to 146: version and timestamp\<close>

definition reconcile_version :: "'bin lib \<Rightarrow> json \<Rightarrow> json \<Rightarrow> exn + json" where
  "reconcile_version L nc edited_nc =
     (case edited_nc of
        JObj m \<Rightarrow>
          (case getitem nc ''version'' of
             Inl e \<Rightarrow> Inl e
           | Inr v \<Rightarrow>
               if py_eq (dict_get m ''version'' v) v
               then (case add_one (float_round L) v of
                       Inl e \<Rightarrow> Inl e
                     | Inr v' \<Rightarrow> Inr (JObj (setitem m ''version'' v')))
               else Inr edited_nc)
      | _ \<Rightarrow> Inl AttributeError)"

definition reconcile_timestamp :: "int \<Rightarrow> json \<Rightarrow> json \<Rightarrow> exn + json" where
  "reconcile_timestamp now nc edited_nc =
     (case edited_nc of
        JObj m \<Rightarrow>
          (case getitem nc ''last_timestamp'' of
             Inl e \<Rightarrow> Inl e
           | Inr t \<Rightarrow>
               if py_eq (dict_get m ''last_timestamp'' t) t
               then Inr (JObj (setitem m ''last_timestamp'' (JInt now)))
               else Inr edited_nc)
      | _ \<Rightarrow> Inl AttributeError)"

definition reconcile :: "'bin lib \<Rightarrow> int \<Rightarrow> json \<Rightarrow> json \<Rightarrow> exn + json" where
  "reconcile L now nc edited_nc =
     (case reconcile_version L nc edited_nc of
        Inl e \<Rightarrow> Inl e
      | Inr edited_nc \<Rightarrow> reconcile_timestamp now nc edited_nc)"

subsection \<open>The body of the loop\<close>

text \<open>\<^verbatim>\<open>next(diff, None)\<close> on the generator \<^verbatim>\<open>diff\<close>, of which nothing has been read yet.\<close>

definition next_or_none :: "'a list \<Rightarrow> 'a option" where
  "next_or_none diff = (case diff of [] \<Rightarrow> None | line # _ \<Rightarrow> Some line)"

text \<open>
  One pass ends with \<^verbatim>\<open>continue\<close>, with \<^verbatim>\<open>break\<close>, or with an exception that the
  \<^verbatim>\<open>except\<close> clause does not catch. The \<^verbatim>\<open>except\<close> clause catches \<^verbatim>\<open>EditorError\<close>,
  \<^verbatim>\<open>JSONDecodeError\<close> and \<^verbatim>\<open>NCMError\<close>, prints the exception and asks whether to try again.
\<close>

datatype control = Continue | Break | Propagate exn

definition handler :: "answers \<Rightarrow> exn \<Rightarrow> 'bin action list \<times> control" where
  "handler w e =
     ([CprintExn e, ConfirmPrompt], if \<not> try_again w then Break else Continue)"

text \<open>From the prompt on (lines 152 to 177), for the reconciled document.\<close>

definition confirm_and_apply :: "'bin lib \<Rightarrow> answers \<Rightarrow> string list \<Rightarrow> json \<Rightarrow> 'bin action list \<times> control" where
  "confirm_and_apply L w nc_list edited_nc =
     (let edited_nc_json_str = json_dumps L edited_nc;
          edited_nc_list = split_nl edited_nc_json_str;
          diff = unified_diff nc_list edited_nc_list;
          shown = [Cprint ''You're going to apply the following diff:'', PrintLines diff,
                   Cprint [CHR 0x0A, CHR ''W'', CHR ''h'', CHR ''a'', CHR ''t'', CHR '' '', CHR ''t'', CHR ''o'',
                           CHR '' '', CHR ''d'', CHR ''o'', CHR '' '', CHR ''n'', CHR ''o'', CHR ''w'', CHR ''?''],
                   Cprint ''[1] Apply'', Cprint ''[2] Edit'', Cprint ''[3] Cancel'', AskPrompt]
      in if choice w = ''2'' then (shown, Continue)
         else if choice w = ''3'' then (shown, Break)
         else
           (case json_to_nodes_configuration L edited_nc_json_str of
              Inl e \<Rightarrow>
                (case handler w (NCMError (''Error on serializing config: '' @ e)) of
                   (acts, c) \<Rightarrow> (shown @ [JsonToNodesConfiguration edited_nc_json_str] @ acts, c))
            | Inr nc_bin \<Rightarrow>
                (case overwrite_error w of
                   None \<Rightarrow>
                     (shown @ [JsonToNodesConfiguration edited_nc_json_str,
                               OverwriteNodesConfiguration nc_bin], Break)
                 | Some e \<Rightarrow>
                     (case handler w (NCMError (''Error on overwriting config: '' @ e)) of
                        (acts, c) \<Rightarrow>
                          (shown @ [JsonToNodesConfiguration edited_nc_json_str,
                                    OverwriteNodesConfiguration nc_bin] @ acts, c)))))"

text \<open>
  The whole body, lines 125 to 184. The result is the new value of \<^verbatim>\<open>edited_text\<close>, what
  was done, and how the pass ended. \<^verbatim>\<open>edited_text\<close> is assigned only when
  \<^verbatim>\<open>_edit_text_with_editor\<close> returns.
\<close>

definition attempt :: "'bin lib \<Rightarrow> json \<Rightarrow> string \<Rightarrow> string option \<Rightarrow> answers \<Rightarrow>
    string option \<times> 'bin action list \<times> control" where
  "attempt L nc formatted edited_text w =
     (let text' = (case edited_text of None \<Rightarrow> formatted | Some t \<Rightarrow> t) in
      case edit_text_with_editor w text' of
        Inl e \<Rightarrow> (case handler w e of (acts, c) \<Rightarrow> (edited_text, RunEditor text' # acts, c))
      | Inr new_text \<Rightarrow>
          (case json_loads L new_text of
             None \<Rightarrow>
               (case handler w JSONDecodeError of
                  (acts, c) \<Rightarrow> (Some new_text, RunEditor text' # acts, c))
           | Some edited_nc \<Rightarrow>
               (let nc_list = split_nl (json_dumps L nc);
                    edited_nc_list = split_nl (json_dumps L edited_nc);
                    diff = unified_diff nc_list edited_nc_list
                in if next_or_none diff = None
                   then (case handler w (EditorError ''No changes detected'') of
                           (acts, c) \<Rightarrow> (Some new_text, RunEditor text' # acts, c))
                   else
                     (case reconcile L (now_ms w) nc edited_nc of
                        Inl e \<Rightarrow> (Some new_text, [RunEditor text'], Propagate e)
                      | Inr edited_nc \<Rightarrow>
                          (case confirm_and_apply L w nc_list edited_nc of
                             (acts, c) \<Rightarrow> (Some new_text, RunEditor text' # acts, c))))))"

subsection \<open>The loop and the command\<close>

text \<open>
  How a command ends: it returns a value (\<^verbatim>\<open>None\<close> when it runs off its end), or an
  exception leaves it. The loop of \<^verbatim>\<open>edit\<close> has no bound; it is run on the list of the
  answers of the passes, and \<open>Waiting\<close> says that the loop has used them all and has not
  ended.
\<close>

datatype retval = RInt int | RNone

datatype outcome = Returned retval | Uncaught exn | Waiting

fun edit_loop :: "'bin lib \<Rightarrow> json \<Rightarrow> string \<Rightarrow> string option \<Rightarrow> answers list \<Rightarrow>
    'bin action list \<times> outcome" where
  "edit_loop L nc formatted edited_text [] = ([], Waiting)"
| "edit_loop L nc formatted edited_text (w # ws) =
     (case attempt L nc formatted edited_text w of
        (edited_text', acts, Continue) \<Rightarrow>
          (case edit_loop L nc formatted edited_text' ws of (acts', r) \<Rightarrow> (acts @ acts', r))
      | (edited_text', acts, Break) \<Rightarrow> (acts, Returned (RInt 0))
      | (edited_text', acts, Propagate e) \<Rightarrow> (acts, Uncaught e))"

text \<open>
  \<^verbatim>\<open>_get_client\<close> and \<^verbatim>\<open>_get_nodes_config\<close> are called once, before the loop; \<open>Some\<close>
  respectively \<open>Inl\<close> is the text of the exception raised.
\<close>

record fetch =
  get_client :: "string option"
  get_nodes_config :: "string + json"

definition edit :: "'bin lib \<Rightarrow> fetch \<Rightarrow> answers list \<Rightarrow> 'bin action list \<times> outcome" where
  "edit L f ws =
     (case get_client f of
        Some e \<Rightarrow> ([GetClient, Cprint e], Returned (RInt 1))
      | None \<Rightarrow>
          (case get_nodes_config f of
             Inl e \<Rightarrow> ([GetClient, GetNodesConfig, Cprint e], Returned (RInt 1))
           | Inr nc \<Rightarrow>
               (let formatted = json_dumps L nc in
                case edit_loop L nc formatted None ws of
                  (acts, r) \<Rightarrow> ([GetClient, GetNodesConfig] @ acts, r))))"

section \<open>The other commands\<close>

subsection \<open>\<^verbatim>\<open>show\<close>\<close>

definition show_cmd :: "'bin lib \<Rightarrow> fetch \<Rightarrow> 'bin action list \<times> outcome" where
  "show_cmd L f =
     (case get_client f of
        Some e \<Rightarrow> ([GetClient, Cprint e], Returned (RInt 1))
      | None \<Rightarrow>
          (case get_nodes_config f of
             Inl e \<Rightarrow> ([GetClient, GetNodesConfig, Cprint e], Returned (RInt 1))
           | Inr nc \<Rightarrow>
               ([GetClient, GetNodesConfig, PrintLines [json_dumps L nc]], Returned (RInt 0))))"

subsection \<open>\<^verbatim>\<open>bootstrap\<close> and \<^verbatim>\<open>shrink\<close>\<close>

text \<open>
  \<^verbatim>\<open>LocationScope\<close> is declared in \<^verbatim>\<open>logdevice.common.types\<close>: \<open>location_scope\<close> is the
  lookup \<^verbatim>\<open>LocationScope[name]\<close>, \<open>None\<close> when it raises \<^verbatim>\<open>KeyError\<close>, and \<open>upper\<close> is
  \<^verbatim>\<open>str.upper\<close>. The mapping \<^verbatim>\<open>metadata_replicate_across\<close> is the list of its items in
  the order of \<^verbatim>\<open>items()\<close>. The loop returns the name of the first scope that is not
  one, or the replication property built.
\<close>

fun replication_loop :: "(string \<Rightarrow> string) \<Rightarrow> (string \<Rightarrow> 'scope option) \<Rightarrow> (string \<times> int) list \<Rightarrow>
    ('scope \<times> int) list \<Rightarrow> string + ('scope \<times> int) list" where
  "replication_loop upper location_scope [] replication_property = Inr replication_property"
| "replication_loop upper location_scope ((scope_str, factor) # items) replication_property =
     (case location_scope (upper scope_str) of
        None \<Rightarrow> Inl scope_str
      | Some scope \<Rightarrow>
          replication_loop upper location_scope items
            (AList.update scope factor replication_property))"

text \<open>
  What the admin server answers: \<open>admin_client\<close> is the exception text if
  \<^verbatim>\<open>get_cluster_admin_client\<close> fails, which nothing catches; \<open>rpc_error\<close> is the
  exception text of the call if it raises, a timeout after 60 seconds included.
\<close>

record admin =
  admin_client :: "string option"
  rpc_error :: "string option"

datatype 'scope admin_action =
    Colored string
  | BootstrapCluster "('scope \<times> int) list"
  | RemoveNodes "int list"

datatype admin_outcome = Return retval | Raise string

definition bootstrap :: "(string \<Rightarrow> string) \<Rightarrow> (string \<Rightarrow> 'scope option) \<Rightarrow> admin \<Rightarrow>
    (string \<times> int) list \<Rightarrow> 'scope admin_action list \<times> admin_outcome" where
  "bootstrap upper location_scope srv metadata_replicate_across =
     (case replication_loop upper location_scope metadata_replicate_across [] of
        Inl scope_str \<Rightarrow> ([Colored (scope_str @ '' is not a valid scope'')], Return (RInt 1))
      | Inr replication_property \<Rightarrow>
          (case admin_client srv of
             Some e \<Rightarrow> ([], Raise e)
           | None \<Rightarrow>
               (case rpc_error srv of
                  None \<Rightarrow>
                    ([BootstrapCluster replication_property,
                      Colored ''Successfully bootstrapped the cluster''], Return RNone)
                | Some e \<Rightarrow>
                    ([BootstrapCluster replication_property, Colored e], Return (RInt 1)))))"

definition shrink :: "admin \<Rightarrow> int list \<Rightarrow> 'scope admin_action list \<times> admin_outcome" where
  "shrink srv node_indexes =
     (case admin_client srv of
        Some e \<Rightarrow> ([], Raise e)
      | None \<Rightarrow>
          (case rpc_error srv of
             None \<Rightarrow>
               ([RemoveNodes node_indexes, Colored ''Successfully removed the nodes''], Return RNone)
           | Some e \<Rightarrow> ([RemoveNodes node_indexes, Colored e], Return (RInt 1))))"

section \<open>An example session\<close>

text \<open>
  The baseline has version 5 and timestamp 1000; the user adds an empty list of nodes and
  touches neither field.
\<close>

definition baseline_doc :: json where
  "baseline_doc = JObj [(''last_timestamp'', JInt 1000), (''version'', JInt 5)]"

definition edited_items :: "(string \<times> json) list" where
  "edited_items = [(''last_timestamp'', JInt 1000), (''nodes'', JArr []), (''version'', JInt 5)]"

definition float_lib :: "unit lib" where
  "float_lib = \<lparr>json_loads = (\<lambda>s. None), json_dumps = (\<lambda>d. []),
     json_to_nodes_configuration = (\<lambda>s. Inr ()), float_round = Finite\<rparr>"

section \<open>Version and timestamp reconciliation\<close>

lemma map_of_setitem: "map_of (setitem m k v) = (map_of m)(k \<mapsto> v)"
  by (simp add: setitem_def update_conv')

lemma reconcile_version_int:
  assumes "getitem nc ''version'' = Inr (JInt v)"
  shows "reconcile_version L nc (JObj m) =
     Inr (JObj (if py_eq (dict_get m ''version'' (JInt v)) (JInt v)
                then setitem m ''version'' (JInt (v + 1)) else m))"
  using assms by (simp add: reconcile_version_def)

lemma reconcile_timestamp_dict:
  assumes "getitem nc ''last_timestamp'' = Inr t"
  shows "reconcile_timestamp now nc (JObj m) =
     Inr (JObj (if py_eq (dict_get m ''last_timestamp'' t) t
                then setitem m ''last_timestamp'' (JInt now) else m))"
  using assms by (simp add: reconcile_timestamp_def)

lemma reconcile_dict:
  assumes "getitem nc ''version'' = Inr (JInt v)" and "getitem nc ''last_timestamp'' = Inr t"
  shows "reconcile L now nc (JObj m) =
     Inr (JObj
       (let m1 = (if py_eq (dict_get m ''version'' (JInt v)) (JInt v)
                  then setitem m ''version'' (JInt (v + 1)) else m)
        in if py_eq (dict_get m1 ''last_timestamp'' t) t
           then setitem m1 ''last_timestamp'' (JInt now) else m1))"
  by (simp add: reconcile_def reconcile_version_int[OF assms(1)]
      reconcile_timestamp_dict[OF assms(2)] Let_def)

text \<open>
  C1. The baseline carries an integer version \<open>v\<close> and a timestamp, the edited document is
  a dict whose version is \<open>x\<close>. If \<open>x == v\<close> in Python's sense, the reconciled document has
  version \<open>v + 1\<close>; if not, it has the very \<open>x\<close> the user wrote.
\<close>

theorem version_reconciled:
  assumes "getitem nc ''version'' = Inr (JInt v)"
    and "getitem nc ''last_timestamp'' = Inr t"
    and "map_of m ''version'' = Some x"
  shows "\<exists>m'. reconcile L now nc (JObj m) = Inr (JObj m') \<and>
           (py_eq x (JInt v) \<longrightarrow> map_of m' ''version'' = Some (JInt (v + 1))) \<and>
           (\<not> py_eq x (JInt v) \<longrightarrow> map_of m' ''version'' = Some x)"
  using assms(3)
  by (simp add: reconcile_dict[OF assms(1,2)] Let_def map_of_setitem dict_get_def)

theorem version_reconciled_witness:
  "getitem baseline_doc ''version'' = Inr (JInt 5) \<and>
   getitem baseline_doc ''last_timestamp'' = Inr (JInt 1000) \<and>
   map_of edited_items ''version'' = Some (JInt 5) \<and>
   py_eq (JInt 5) (JInt 5) \<and>
   (\<exists>m'. reconcile float_lib 1700000000000 baseline_doc (JObj edited_items) = Inr (JObj m') \<and>
         map_of m' ''version'' = Some (JInt 6))"
proof -
  have a: "getitem baseline_doc ''version'' = Inr (JInt 5)"
    by (simp add: getitem_def baseline_doc_def)
  have b: "getitem baseline_doc ''last_timestamp'' = Inr (JInt 1000)"
    by (simp add: getitem_def baseline_doc_def)
  have c: "map_of edited_items ''version'' = Some (JInt 5)"
    by (simp add: edited_items_def)
  from version_reconciled[OF a b c, of float_lib 1700000000000] a b c
  show ?thesis by simp
qed

text \<open>
  C2, as amended. The baseline carries an integer version and a timestamp \<open>t\<close>, the edited
  document is a dict whose timestamp is \<open>x\<close>. If \<open>x == t\<close>, the reconciled document has the
  reading \<open>now\<close> of the clock as its timestamp, whatever its order with \<open>t\<close>; if not, it
  has the very \<open>x\<close> the user wrote.
\<close>

theorem timestamp_reconciled:
  assumes "getitem nc ''version'' = Inr (JInt v)"
    and "getitem nc ''last_timestamp'' = Inr t"
    and "map_of m ''last_timestamp'' = Some x"
  shows "\<exists>m'. reconcile L now nc (JObj m) = Inr (JObj m') \<and>
           (py_eq x t \<longrightarrow> map_of m' ''last_timestamp'' = Some (JInt now)) \<and>
           (\<not> py_eq x t \<longrightarrow> map_of m' ''last_timestamp'' = Some x)"
  using assms(3)
  by (simp add: reconcile_dict[OF assms(1,2)] Let_def map_of_setitem dict_get_def)

theorem timestamp_reconciled_witness:
  "getitem baseline_doc ''version'' = Inr (JInt 5) \<and>
   getitem baseline_doc ''last_timestamp'' = Inr (JInt 1000) \<and>
   map_of edited_items ''last_timestamp'' = Some (JInt 1000) \<and>
   py_eq (JInt 1000) (JInt 1000) \<and>
   (\<exists>m'. reconcile float_lib 1700000000000 baseline_doc (JObj edited_items) = Inr (JObj m') \<and>
         map_of m' ''last_timestamp'' = Some (JInt 1700000000000))"
proof -
  have a: "getitem baseline_doc ''version'' = Inr (JInt 5)"
    by (simp add: getitem_def baseline_doc_def)
  have b: "getitem baseline_doc ''last_timestamp'' = Inr (JInt 1000)"
    by (simp add: getitem_def baseline_doc_def)
  have c: "map_of edited_items ''last_timestamp'' = Some (JInt 1000)"
    by (simp add: edited_items_def)
  from timestamp_reconciled[OF a b c, of float_lib 1700000000000] a b c
  show ?thesis by simp
qed

text \<open>
  The claim fails where the clock reads less than the baseline's timestamp: against a
  baseline stamped 2000, an edit that keeps the timestamp and is reconciled when the clock
  reads 1000 is stamped 1000.
\<close>

theorem timestamp_reconciled_counterexample:
  "reconcile float_lib 1000
     (JObj [(''last_timestamp'', JInt 2000), (''version'', JInt 5)])
     (JObj [(''last_timestamp'', JInt 2000), (''version'', JInt 5), (''x'', JNull)]) =
   Inr (JObj [(''last_timestamp'', JInt 1000), (''version'', JInt 6), (''x'', JNull)]) \<and>
   \<not> (2000 \<le> (1000::int))"
  by (simp add: reconcile_def reconcile_version_def reconcile_timestamp_def getitem_def
      dict_get_def setitem_def)

section \<open>\<^verbatim>\<open>bootstrap\<close> and \<^verbatim>\<open>shrink\<close>\<close>

text \<open>
  An instance for the examples: \<^verbatim>\<open>str.upper\<close> on ASCII letters, and an enumeration with
  the three scopes that the help text of \<^verbatim>\<open>bootstrap\<close> names.
\<close>

definition ascii_upper :: "string \<Rightarrow> string" where
  "ascii_upper s =
     map (\<lambda>c. case map_of (zip ''abcdefghijklmnopqrstuvwxyz'' ''ABCDEFGHIJKLMNOPQRSTUVWXYZ'') c of
                 Some C \<Rightarrow> C | None \<Rightarrow> c) s"

datatype example_scope = NODE | RACK | REGION

definition example_location_scope :: "string \<Rightarrow> example_scope option" where
  "example_location_scope = map_of [(''NODE'', NODE), (''RACK'', RACK), (''REGION'', REGION)]"

lemma replication_loop_invalid:
  assumes "(scope_str, factor) \<in> set items" and "location_scope (upper scope_str) = None"
  shows "\<exists>s. replication_loop upper location_scope items rp = Inl s \<and>
             s \<in> fst ` set items \<and> location_scope (upper s) = None"
  using assms
proof (induction items arbitrary: rp)
  case Nil
  then show ?case by simp
next
  case (Cons item items)
  obtain s f where item: "item = (s, f)" by (cases item)
  show ?case
  proof (cases "location_scope (upper s)")
    case None
    then show ?thesis using item by auto
  next
    case (Some scope)
    with Cons.prems item have "(scope_str, factor) \<in> set items" by auto
    from Cons.IH[OF this Cons.prems(2), of "AList.update scope f rp"] Some item
    show ?thesis by auto
  qed
qed

text \<open>
  C7. If some name of the mapping, upper-cased, is not in the enumeration, \<^verbatim>\<open>bootstrap\<close>
  prints that a name \<open>s\<close> of the mapping is not a valid scope, returns 1, and does nothing
  else: no call of \<^verbatim>\<open>bootstrapCluster\<close> is made.
\<close>

theorem bootstrap_invalid_scope:
  assumes "(scope_str, factor) \<in> set metadata_replicate_across"
    and "location_scope (upper scope_str) = None"
  shows "\<exists>s. bootstrap upper location_scope srv metadata_replicate_across =
               ([Colored (s @ '' is not a valid scope'')], Return (RInt 1)) \<and>
             s \<in> fst ` set metadata_replicate_across \<and> location_scope (upper s) = None"
proof -
  from replication_loop_invalid[where upper = upper and location_scope = location_scope and rp = "[]", OF assms]
  obtain s where "replication_loop upper location_scope metadata_replicate_across [] = Inl s"
    and "s \<in> fst ` set metadata_replicate_across" and "location_scope (upper s) = None"
    by blast
  then show ?thesis by (auto simp: bootstrap_def)
qed

theorem bootstrap_invalid_scope_witness:
  "(''galaxy'', 2::int) \<in> set [(''rack'', 3), (''galaxy'', 2)] \<and>
   example_location_scope (ascii_upper ''galaxy'') = None \<and>
   bootstrap ascii_upper example_location_scope \<lparr>admin_client = None, rpc_error = None\<rparr>
       [(''rack'', 3), (''galaxy'', 2)] =
     ([Colored ''galaxy is not a valid scope''], Return (RInt 1))"
proof -
  have a: "(''galaxy'', 2::int) \<in> set [(''rack'', 3), (''galaxy'', 2)]" by simp
  have b: "example_location_scope (ascii_upper ''galaxy'') = None"
    by (simp add: example_location_scope_def ascii_upper_def)
  have c: "example_location_scope (ascii_upper ''rack'') = Some RACK"
    by (simp add: example_location_scope_def ascii_upper_def)
  from bootstrap_invalid_scope[where upper = ascii_upper and location_scope = example_location_scope
      and srv = "\<lparr>admin_client = None, rpc_error = None\<rparr>", OF a b]
  obtain s where s: "bootstrap ascii_upper example_location_scope \<lparr>admin_client = None, rpc_error = None\<rparr>
       [(''rack'', 3), (''galaxy'', 2)] = ([Colored (s @ '' is not a valid scope'')], Return (RInt 1))"
    and "s \<in> fst ` set [(''rack'', 3::int), (''galaxy'', 2)]"
    and n: "example_location_scope (ascii_upper s) = None"
    by blast
  then have "s = ''rack'' \<or> s = ''galaxy''" by auto
  with n c have "s = ''galaxy''" by auto
  with s a b show ?thesis by simp
qed

text \<open>
  C6. Where the call to the admin server succeeds, \<^verbatim>\<open>bootstrap\<close> and \<^verbatim>\<open>shrink\<close> run off
  their end after the message of success: what they return is \<^verbatim>\<open>None\<close>, not 0.
\<close>

theorem bootstrap_shrink_success_return_none:
  "bootstrap ascii_upper example_location_scope \<lparr>admin_client = None, rpc_error = None\<rparr>
       [(''node'', 3), (''rack'', 2)] =
     ([BootstrapCluster [(NODE, 3), (RACK, 2)], Colored ''Successfully bootstrapped the cluster''],
      Return RNone) \<and>
   shrink \<lparr>admin_client = None, rpc_error = None\<rparr> [7, 9] =
     ([RemoveNodes [7, 9], Colored ''Successfully removed the nodes''] :: example_scope admin_action list,
      Return RNone)"
  by (simp add: bootstrap_def shrink_def example_location_scope_def ascii_upper_def)

section \<open>One pass through the loop\<close>

lemma handler_actions: "fst (handler w e) = [CprintExn e, ConfirmPrompt]"
  by (simp add: handler_def)

lemma handler_control: "snd (handler w e) = (if \<not> try_again w then Break else Continue)"
  by (simp add: handler_def)

text \<open>A pass whose editor fails.\<close>

lemma attempt_editor_failed:
  assumes "returncode w \<noteq> 0"
  shows "attempt L nc formatted edited_text w =
     (edited_text,
      [RunEditor (case edited_text of None \<Rightarrow> formatted | Some t \<Rightarrow> t),
       CprintExn (EditorError ''Non-zero return code from editor''), ConfirmPrompt],
      if try_again w then Continue else Break)"
  using assms by (simp add: attempt_def edit_text_with_editor_def handler_def Let_def)

text \<open>Every pass opens the editor first, on \<^verbatim>\<open>formatted\<close> or on the text kept.\<close>

lemma attempt_starts_with_editor:
  "\<exists>acts. fst (snd (attempt L nc formatted edited_text w)) =
     RunEditor (case edited_text of None \<Rightarrow> formatted | Some t \<Rightarrow> t) # acts"
  by (simp add: attempt_def Let_def split: sum.split option.split prod.split)

text \<open>A pass whose editor succeeds keeps the text it saved.\<close>

lemma attempt_editor_succeeded:
  assumes "returncode w = 0"
  shows "fst (attempt L nc formatted edited_text w) = Some (saved_text w)"
  using assms
  by (simp add: attempt_def edit_text_with_editor_def Let_def split: sum.split option.split prod.split)

text \<open>What a pass may do, and on which documents.\<close>

lemma confirm_and_apply_actions:
  assumes "a \<in> set (fst (confirm_and_apply L w nc_list d))"
  shows "a \<noteq> GetClient \<and> a \<noteq> GetNodesConfig \<and>
         (\<forall>s. a \<noteq> RunEditor s) \<and>
         (\<forall>ds. a = PrintLines ds \<longrightarrow> ds = unified_diff nc_list (split_nl (json_dumps L d))) \<and>
         (\<forall>s. a = JsonToNodesConfiguration s \<longrightarrow> s = json_dumps L d) \<and>
         (\<forall>b. a = OverwriteNodesConfiguration b \<longrightarrow>
               json_to_nodes_configuration L (json_dumps L d) = Inr b) \<and>
         (\<forall>e. a = CprintExn e \<longrightarrow> (\<exists>s. e = NCMError s))"
  using assms
  by (auto simp: confirm_and_apply_def Let_def handler_def
      split: if_splits sum.splits option.splits)

definition pass_document :: "'bin lib \<Rightarrow> json \<Rightarrow> answers \<Rightarrow> json \<Rightarrow> bool" where
  "pass_document L nc w d \<longleftrightarrow>
     (\<exists>edited_nc. returncode w = 0 \<and> json_loads L (saved_text w) = Some edited_nc \<and>
        unified_diff (split_nl (json_dumps L nc)) (split_nl (json_dumps L edited_nc)) \<noteq> [] \<and>
        reconcile L (now_ms w) nc edited_nc = Inr d)"

lemma next_or_none_None [simp]: "next_or_none diff = None \<longleftrightarrow> diff = []"
  by (simp add: next_or_none_def split: list.split)

lemma attempt_actions:
  assumes "a \<in> set (fst (snd (attempt L nc formatted edited_text w)))"
  shows "a \<noteq> GetClient \<and> a \<noteq> GetNodesConfig \<and>
         (\<forall>ds. a = PrintLines ds \<longrightarrow>
            (\<exists>d. pass_document L nc w d \<and>
                 ds = unified_diff (split_nl (json_dumps L nc)) (split_nl (json_dumps L d)))) \<and>
         (\<forall>s. a = JsonToNodesConfiguration s \<longrightarrow> (\<exists>d. pass_document L nc w d \<and> s = json_dumps L d)) \<and>
         (\<forall>b. a = OverwriteNodesConfiguration b \<longrightarrow>
            (\<exists>d. pass_document L nc w d \<and> json_to_nodes_configuration L (json_dumps L d) = Inr b)) \<and>
         (a = CprintExn (EditorError ''No changes detected'') \<longrightarrow>
            (\<exists>edited_nc. returncode w = 0 \<and> json_loads L (saved_text w) = Some edited_nc \<and>
               unified_diff (split_nl (json_dumps L nc)) (split_nl (json_dumps L edited_nc)) = []))"
proof (cases "returncode w = 0")
  case False
  then show ?thesis using assms by (auto simp: attempt_editor_failed)
next
  case rc: True
  show ?thesis
  proof (cases "json_loads L (saved_text w)")
    case None
    with rc assms show ?thesis
      by (auto simp: attempt_def edit_text_with_editor_def handler_def Let_def)
  next
    case (Some edited_nc)
    show ?thesis
    proof (cases "unified_diff (split_nl (json_dumps L nc)) (split_nl (json_dumps L edited_nc)) = []")
      case True
      with rc Some assms show ?thesis
        by (auto simp: attempt_def edit_text_with_editor_def handler_def Let_def)
    next
      case nd: False
      show ?thesis
      proof (cases "reconcile L (now_ms w) nc edited_nc")
        case (Inl e)
        with rc Some nd assms show ?thesis
          by (auto simp: attempt_def edit_text_with_editor_def Let_def)
      next
        case (Inr d)
        have pd: "pass_document L nc w d"
          using rc Some nd Inr by (auto simp: pass_document_def)
        have "a = RunEditor (case edited_text of None \<Rightarrow> formatted | Some t \<Rightarrow> t) \<or>
              a \<in> set (fst (confirm_and_apply L w (split_nl (json_dumps L nc)) d))"
          using rc Some nd Inr assms
          by (auto simp: attempt_def edit_text_with_editor_def Let_def split: prod.splits)
        then show ?thesis
        proof
          assume "a = RunEditor (case edited_text of None \<Rightarrow> formatted | Some t \<Rightarrow> t)"
          then show ?thesis by simp
        next
          assume "a \<in> set (fst (confirm_and_apply L w (split_nl (json_dumps L nc)) d))"
          from confirm_and_apply_actions[OF this] pd show ?thesis by auto
        qed
      qed
    qed
  qed
qed

section \<open>The session\<close>

lemma edit_loop_actions:
  assumes "a \<in> set (fst (edit_loop L nc formatted edited_text ws))"
  shows "\<exists>w \<in> set ws. \<exists>edited_text'. a \<in> set (fst (snd (attempt L nc formatted edited_text' w)))"
  using assms
proof (induction ws arbitrary: edited_text)
  case Nil
  then show ?case by simp
next
  case (Cons w ws)
  obtain et' acts c where att: "attempt L nc formatted edited_text w = (et', acts, c)"
    by (metis prod_cases3)
  show ?case
  proof (cases "a \<in> set acts")
    case True
    then have "a \<in> set (fst (snd (attempt L nc formatted edited_text w)))" using att by simp
    then show ?thesis by auto
  next
    case False
    with Cons.prems att have "c = Continue \<and> a \<in> set (fst (edit_loop L nc formatted et' ws))"
      by (cases c) (auto split: prod.splits)
    with Cons.IH[of et'] show ?thesis by auto
  qed
qed

lemma edit_fetched:
  assumes "get_client f = None" and "get_nodes_config f = Inr nc"
  shows "edit L f ws =
     ([GetClient, GetNodesConfig] @ fst (edit_loop L nc (json_dumps L nc) None ws),
      snd (edit_loop L nc (json_dumps L nc) None ws))"
  using assms by (simp add: edit_def Let_def split: prod.split)

lemma edit_actions_cases:
  assumes "a \<in> set (fst (edit L f ws))"
  shows "a = GetClient \<or> a = GetNodesConfig \<or> (\<exists>e. a = Cprint e) \<or>
         (\<exists>nc. get_client f = None \<and> get_nodes_config f = Inr nc \<and>
               a \<in> set (fst (edit_loop L nc (json_dumps L nc) None ws)))"
  using assms
  by (auto simp: edit_def Let_def split: option.splits sum.splits prod.splits)

lemma reconcile_version_changed:
  assumes "reconcile L now nc edited_nc = Inr d" and "getitem nc ''version'' = Inr (JInt v)"
  shows "\<exists>m' x. d = JObj m' \<and> map_of m' ''version'' = Some x \<and> \<not> py_eq x (JInt v)"
proof -
  obtain m where m: "edited_nc = JObj m"
    using assms(1) by (cases edited_nc) (auto simp: reconcile_def reconcile_version_def)
  let ?m1 = "if py_eq (dict_get m ''version'' (JInt v)) (JInt v)
             then setitem m ''version'' (JInt (v + 1)) else m"
  have v1: "\<exists>x. map_of ?m1 ''version'' = Some x \<and> \<not> py_eq x (JInt v)"
    by (cases "map_of m ''version''") (auto simp: map_of_setitem dict_get_def)
  have rv: "reconcile_version L nc edited_nc = Inr (JObj ?m1)"
    unfolding m by (rule reconcile_version_int[OF assms(2)])
  with assms(1) have rt: "reconcile_timestamp now nc (JObj ?m1) = Inr d"
    by (simp add: reconcile_def)
  then obtain t where t: "getitem nc ''last_timestamp'' = Inr t"
    by (cases "getitem nc ''last_timestamp''") (auto simp: reconcile_timestamp_def)
  from rt reconcile_timestamp_dict[OF t, of now ?m1]
  have "d = JObj (if py_eq (dict_get ?m1 ''last_timestamp'' t) t
                  then setitem ?m1 ''last_timestamp'' (JInt now) else ?m1)"
    by simp
  with v1 show ?thesis by (auto simp: map_of_setitem)
qed

lemma edit_loop_Cons:
  "edit_loop L nc formatted edited_text (w # ws) =
     (case attempt L nc formatted edited_text w of
        (edited_text', acts, c) \<Rightarrow>
          (case c of
             Continue \<Rightarrow> (acts @ fst (edit_loop L nc formatted edited_text' ws),
                          snd (edit_loop L nc formatted edited_text' ws))
           | Break \<Rightarrow> (acts, Returned (RInt 0))
           | Propagate e \<Rightarrow> (acts, Uncaught e)))"
  by (simp split: prod.split control.split)

text \<open>
  C8. In a session whose fetch succeeds with the document \<open>nc\<close>, \<^verbatim>\<open>_get_nodes_config\<close> is
  called once, before anything else but \<^verbatim>\<open>_get_client\<close>, and never in the loop. Every
  diff printed is a diff against the lines of \<open>nc\<close>; every report that nothing changed
  comes from an empty diff against the lines of \<open>nc\<close>; and every document serialized or
  written was reconciled against \<open>nc\<close>.
\<close>

theorem baseline_fetched_once:
  assumes "get_client f = None" and "get_nodes_config f = Inr nc"
  shows "\<exists>acts. fst (edit L f ws) = [GetClient, GetNodesConfig] @ acts \<and>
           GetNodesConfig \<notin> set acts \<and> GetClient \<notin> set acts \<and>
           (\<forall>ds. PrintLines ds \<in> set acts \<longrightarrow>
              (\<exists>d. ds = unified_diff (split_nl (json_dumps L nc)) (split_nl (json_dumps L d)))) \<and>
           (CprintExn (EditorError ''No changes detected'') \<in> set acts \<longrightarrow>
              (\<exists>w \<in> set ws. \<exists>edited_nc. json_loads L (saved_text w) = Some edited_nc \<and>
                 unified_diff (split_nl (json_dumps L nc)) (split_nl (json_dumps L edited_nc)) = [])) \<and>
           (\<forall>s. JsonToNodesConfiguration s \<in> set acts \<longrightarrow>
              (\<exists>w \<in> set ws. \<exists>edited_nc d. json_loads L (saved_text w) = Some edited_nc \<and>
                 reconcile L (now_ms w) nc edited_nc = Inr d \<and> s = json_dumps L d))"
proof -
  let ?acts = "fst (edit_loop L nc (json_dumps L nc) None ws)"
  have e: "fst (edit L f ws) = [GetClient, GetNodesConfig] @ ?acts"
    by (simp add: edit_fetched[OF assms])
  have pass: "\<exists>w \<in> set ws. \<exists>et. a \<in> set (fst (snd (attempt L nc (json_dumps L nc) et w)))"
    if "a \<in> set ?acts" for a
    using edit_loop_actions[OF that] .
  have 1: "GetNodesConfig \<notin> set ?acts" "GetClient \<notin> set ?acts"
    using pass attempt_actions by blast+
  have 2: "\<exists>d. ds = unified_diff (split_nl (json_dumps L nc)) (split_nl (json_dumps L d))"
    if "PrintLines ds \<in> set ?acts" for ds
    using pass[OF that] attempt_actions by blast
  have 3: "\<exists>w \<in> set ws. \<exists>edited_nc. json_loads L (saved_text w) = Some edited_nc \<and>
                 unified_diff (split_nl (json_dumps L nc)) (split_nl (json_dumps L edited_nc)) = []"
    if "CprintExn (EditorError ''No changes detected'') \<in> set ?acts"
    using pass[OF that] attempt_actions by blast
  have 4: "\<exists>w \<in> set ws. \<exists>edited_nc d. json_loads L (saved_text w) = Some edited_nc \<and>
                 reconcile L (now_ms w) nc edited_nc = Inr d \<and> s = json_dumps L d"
    if "JsonToNodesConfiguration s \<in> set ?acts" for s
  proof -
    from pass[OF that] obtain w et where w: "w \<in> set ws"
      and "JsonToNodesConfiguration s \<in> set (fst (snd (attempt L nc (json_dumps L nc) et w)))"
      by blast
    from attempt_actions[OF this(2)] obtain d where "pass_document L nc w d" "s = json_dumps L d"
      by blast
    with w show ?thesis unfolding pass_document_def by blast
  qed
  from e 1 2 3 4 show ?thesis by blast
qed

text \<open>
  C4. In a session whose baseline \<open>nc\<close> has the integer version \<open>v\<close>, every text handed to
  \<^verbatim>\<open>json_to_nodes_configuration\<close> and every configuration handed to
  \<^verbatim>\<open>overwrite_nodes_configuration\<close> comes from a pass of the session in which the text saved
  parsed, the diff against the baseline had lines, and the reconciliation gave a dict with a
  version \<open>x\<close> for which \<open>x == v\<close> is false.
\<close>

theorem written_version_differs:
  assumes "get_nodes_config f = Inr nc" and "getitem nc ''version'' = Inr (JInt v)"
  shows "(\<forall>s. JsonToNodesConfiguration s \<in> set (fst (edit L f ws)) \<longrightarrow>
            (\<exists>w \<in> set ws. \<exists>edited_nc m' x.
               json_loads L (saved_text w) = Some edited_nc \<and>
               unified_diff (split_nl (json_dumps L nc)) (split_nl (json_dumps L edited_nc)) \<noteq> [] \<and>
               reconcile L (now_ms w) nc edited_nc = Inr (JObj m') \<and>
               s = json_dumps L (JObj m') \<and>
               map_of m' ''version'' = Some x \<and> \<not> py_eq x (JInt v))) \<and>
         (\<forall>b. OverwriteNodesConfiguration b \<in> set (fst (edit L f ws)) \<longrightarrow>
            (\<exists>w \<in> set ws. \<exists>edited_nc m' x.
               json_loads L (saved_text w) = Some edited_nc \<and>
               unified_diff (split_nl (json_dumps L nc)) (split_nl (json_dumps L edited_nc)) \<noteq> [] \<and>
               reconcile L (now_ms w) nc edited_nc = Inr (JObj m') \<and>
               json_to_nodes_configuration L (json_dumps L (JObj m')) = Inr b \<and>
               map_of m' ''version'' = Some x \<and> \<not> py_eq x (JInt v)))"
proof -
  have pass: "\<exists>w \<in> set ws. \<exists>et. a \<in> set (fst (snd (attempt L nc (json_dumps L nc) et w)))"
    if "a \<in> set (fst (edit L f ws))" and "\<forall>e. a \<noteq> Cprint e" and "a \<noteq> GetClient" and "a \<noteq> GetNodesConfig"
    for a
  proof -
    from edit_actions_cases[OF that(1)] that(2,3,4) assms(1)
    have "a \<in> set (fst (edit_loop L nc (json_dumps L nc) None ws))" by auto
    from edit_loop_actions[OF this] show ?thesis .
  qed
  have doc: "\<exists>edited_nc m' x. json_loads L (saved_text w) = Some edited_nc \<and>
               unified_diff (split_nl (json_dumps L nc)) (split_nl (json_dumps L edited_nc)) \<noteq> [] \<and>
               reconcile L (now_ms w) nc edited_nc = Inr (JObj m') \<and> d = JObj m' \<and>
               map_of m' ''version'' = Some x \<and> \<not> py_eq x (JInt v)"
    if "pass_document L nc w d" for w d
  proof -
    from that obtain edited_nc where l: "json_loads L (saved_text w) = Some edited_nc"
      and u: "unified_diff (split_nl (json_dumps L nc)) (split_nl (json_dumps L edited_nc)) \<noteq> []"
      and r: "reconcile L (now_ms w) nc edited_nc = Inr d"
      unfolding pass_document_def by blast
    from reconcile_version_changed[OF r assms(2)] obtain m' x where
      "d = JObj m'" "map_of m' ''version'' = Some x" "\<not> py_eq x (JInt v)" by blast
    with l u r show ?thesis by blast
  qed
  show ?thesis
  proof (intro conjI allI impI)
    fix s assume "JsonToNodesConfiguration s \<in> set (fst (edit L f ws))"
    from pass[OF this] obtain w et where w: "w \<in> set ws" and
      "JsonToNodesConfiguration s \<in> set (fst (snd (attempt L nc (json_dumps L nc) et w)))"
      by auto
    from attempt_actions[OF this(2)] obtain d where "pass_document L nc w d" "s = json_dumps L d"
      by blast
    with doc[of w d] w show "\<exists>w \<in> set ws. \<exists>edited_nc m' x.
               json_loads L (saved_text w) = Some edited_nc \<and>
               unified_diff (split_nl (json_dumps L nc)) (split_nl (json_dumps L edited_nc)) \<noteq> [] \<and>
               reconcile L (now_ms w) nc edited_nc = Inr (JObj m') \<and>
               s = json_dumps L (JObj m') \<and>
               map_of m' ''version'' = Some x \<and> \<not> py_eq x (JInt v)"
      by blast
  next
    fix b assume "OverwriteNodesConfiguration b \<in> set (fst (edit L f ws))"
    from pass[OF this] obtain w et where w: "w \<in> set ws" and
      "OverwriteNodesConfiguration b \<in> set (fst (snd (attempt L nc (json_dumps L nc) et w)))"
      by auto
    from attempt_actions[OF this(2)] obtain d where "pass_document L nc w d"
      "json_to_nodes_configuration L (json_dumps L d) = Inr b"
      by blast
    with doc[of w d] w show "\<exists>w \<in> set ws. \<exists>edited_nc m' x.
               json_loads L (saved_text w) = Some edited_nc \<and>
               unified_diff (split_nl (json_dumps L nc)) (split_nl (json_dumps L edited_nc)) \<noteq> [] \<and>
               reconcile L (now_ms w) nc edited_nc = Inr (JObj m') \<and>
               json_to_nodes_configuration L (json_dumps L (JObj m')) = Inr b \<and>
               map_of m' ''version'' = Some x \<and> \<not> py_eq x (JInt v)"
      by blast
  qed
qed

section \<open>The example session, run\<close>

text \<open>
  The texts that \<^verbatim>\<open>json.dumps(_, indent=4, sort_keys=True)\<close> gives for the baseline, for the
  edited document and for the edited document reconciled at time 1700000000000, line by
  line, and a library that knows these three documents.
\<close>

definition join_nl :: "string list \<Rightarrow> string" where
  "join_nl ls = (case ls of [] \<Rightarrow> [] | l # rest \<Rightarrow> l @ concat (map (\<lambda>x. CHR 0x0A # x) rest))"

definition baseline_lines :: "string list" where
  "baseline_lines =
     [''{'',
      ''    \"last_timestamp\": 1000,'',
      ''    \"version\": 5'',
      ''}'']"

definition edited_lines :: "string list" where
  "edited_lines =
     [''{'',
      ''    \"last_timestamp\": 1000,'',
      ''    \"nodes\": [],'',
      ''    \"version\": 5'',
      ''}'']"

definition reconciled_items :: "(string \<times> json) list" where
  "reconciled_items =
     [(''last_timestamp'', JInt 1700000000000), (''nodes'', JArr []), (''version'', JInt 6)]"

definition reconciled_lines :: "string list" where
  "reconciled_lines =
     [''{'',
      ''    \"last_timestamp\": 1700000000000,'',
      ''    \"nodes\": [],'',
      ''    \"version\": 6'',
      ''}'']"

definition example_lib :: "string lib" where
  "example_lib =
     \<lparr>json_loads = (\<lambda>s. if s = join_nl edited_lines then Some (JObj edited_items)
                          else if s = join_nl baseline_lines then Some baseline_doc
                          else None),
      json_dumps = (\<lambda>d. join_nl (if d = baseline_doc then baseline_lines
                                  else if d = JObj edited_items then edited_lines
                                  else if d = JObj reconciled_items then reconciled_lines
                                  else [''null''])),
      json_to_nodes_configuration = Inr,
      float_round = Finite\<rparr>"

definition failed_editor :: answers where
  "failed_editor = \<lparr>returncode = 1, saved_text = ''{}'', now_ms = 1699999999000, choice = ''3'',
     overwrite_error = None, try_again = True\<rparr>"

definition saved_and_applied :: answers where
  "saved_and_applied = \<lparr>returncode = 0, saved_text = join_nl edited_lines, now_ms = 1700000000000,
     choice = ''1'', overwrite_error = None, try_again = False\<rparr>"

definition fetched :: fetch where
  "fetched = \<lparr>get_client = None, get_nodes_config = Inr baseline_doc\<rparr>"

theorem baseline_fetched_once_witness:
  "get_client fetched = None \<and> get_nodes_config fetched = Inr baseline_doc \<and>
   (\<exists>acts. fst (edit example_lib fetched [failed_editor, saved_and_applied]) =
             [GetClient, GetNodesConfig] @ acts \<and>
           GetNodesConfig \<notin> set acts \<and> GetClient \<notin> set acts)"
proof -
  have a: "get_client fetched = None" by (simp add: fetched_def)
  have b: "get_nodes_config fetched = Inr baseline_doc" by (simp add: fetched_def)
  from baseline_fetched_once[OF a b, of example_lib "[failed_editor, saved_and_applied]"] a b
  show ?thesis by blast
qed

section \<open>The diff of a sequence against itself\<close>

text \<open>
  \<open>run_before xs r\<close> is the number of consecutive elements of \<open>xs\<close> just before index \<open>r\<close>
  that are not popular: the length that the table \<^verbatim>\<open>j2len\<close> reaches on the diagonal when
  \<open>xs\<close> is matched against itself.
\<close>

fun run_before :: "'a list \<Rightarrow> nat \<Rightarrow> nat" where
  "run_before xs 0 = 0"
| "run_before xs (Suc r) = (if popular xs (xs ! r) then 0 else run_before xs r + 1)"

lemma run_before_popular: "popular xs (xs ! r) \<Longrightarrow> run_before xs (Suc r) = 0"
  by simp

lemma run_before_step: "\<not> popular xs (xs ! r) \<Longrightarrow> run_before xs (Suc r) = run_before xs r + 1"
  by simp

declare run_before.simps(2) [simp del]

definition prevk :: "(nat \<Rightarrow> nat) \<Rightarrow> nat \<Rightarrow> nat" where
  "prevk j2len j = (if j = 0 then 0 else j2len (j - 1))"

lemma positions_set: "set (positions b x) = {j. j < length b \<and> b ! j = x}"
  by (auto simp: positions_def)

lemma positions_sorted: "sorted_wrt (<) (positions b x)"
  unfolding positions_def by (rule sorted_wrt_filter) (simp add: sorted_wrt_upt)

lemma flm_inner_zero_step:
  assumes "j < bhi"
  shows "flm_inner i 0 bhi j2len (j # js) (nj, besti, bestj, bestsize) =
     (if prevk j2len j + 1 > bestsize
      then flm_inner i 0 bhi j2len js (nj(j := prevk j2len j + 1), i + 1 - (prevk j2len j + 1),
             j + 1 - (prevk j2len j + 1), prevk j2len j + 1)
      else flm_inner i 0 bhi j2len js (nj(j := prevk j2len j + 1), besti, bestj, bestsize))"
  using assms by (simp add: prevk_def Let_def)

lemma flm_inner_diag:
  assumes i: "i < length xs" and np: "\<not> popular xs (xs ! i)"
    and tab: "\<forall>j. prevk j2len j \<le> run_before xs (min i j)"
    and tabi: "prevk j2len i = run_before xs i"
    and srt: "sorted_wrt (<) js"
    and js: "\<forall>j \<in> set js. j < length xs \<and> xs ! j = xs ! i"
    and diag: "besti = bestj"
    and best: "\<forall>r \<le> i. run_before xs r \<le> bestsize"
    and pend: "i \<in> set js \<or> (run_before xs (Suc i) \<le> bestsize \<and> nj i = run_before xs (Suc i))"
    and new: "\<forall>j. nj j \<le> run_before xs (Suc (min i j))"
    and res: "flm_inner i 0 (length xs) j2len js (nj, besti, bestj, bestsize) = (nj', bi', bj', bs')"
  shows "bi' = bj' \<and> (\<forall>r \<le> Suc i. run_before xs r \<le> bs') \<and> nj' i = run_before xs (Suc i) \<and>
         (\<forall>j. nj' j \<le> run_before xs (Suc (min i j)))"
  using srt js diag best pend new res
proof (induction js arbitrary: nj besti bestj bestsize)
  case Nil
  then have "nj' = nj" "bi' = besti" "bj' = bestj" "bs' = bestsize" by simp_all
  moreover from Nil.prems(5) have "run_before xs (Suc i) \<le> bestsize" "nj i = run_before xs (Suc i)"
    by simp_all
  ultimately show ?case using Nil.prems(3,4,6) by (auto simp: le_Suc_eq)
next
  case (Cons j js)
  define k where "k = prevk j2len j + 1"
  have jl: "j < length xs" and xj: "xs ! j = xs ! i" using Cons.prems(2) by simp_all
  have srt': "sorted_wrt (<) js" and gt: "\<forall>x \<in> set js. j < x" using Cons.prems(1) by simp_all
  have js': "\<forall>j \<in> set js. j < length xs \<and> xs ! j = xs ! i" using Cons.prems(2) by simp
  have npm: "\<not> popular xs (xs ! min i j)" using np xj by (simp add: min_def)
  have kb: "k \<le> run_before xs (Suc (min i j))"
  proof -
    have "prevk j2len j \<le> run_before xs (min i j)" using tab by simp
    then show ?thesis using run_before_step[OF npm] by (simp add: k_def)
  qed
  have step: "flm_inner i 0 (length xs) j2len (j # js) (nj, besti, bestj, bestsize) =
     (if k > bestsize
      then flm_inner i 0 (length xs) j2len js (nj(j := k), i + 1 - k, j + 1 - k, k)
      else flm_inner i 0 (length xs) j2len js (nj(j := k), besti, bestj, bestsize))"
    unfolding k_def by (rule flm_inner_zero_step[OF jl])
  have new': "\<forall>x. (nj(j := k)) x \<le> run_before xs (Suc (min i x))"
    using Cons.prems(6) kb by simp
  consider (eq) "j = i" | (lt) "j < i" | (gt) "i < j" by linarith
  then show ?case
  proof cases
    case eq
    have ke: "k = run_before xs (Suc i)" using tabi run_before_step[OF np] eq by (simp add: k_def)
    show ?thesis
    proof (cases "k > bestsize")
      case True
      then have r: "flm_inner i 0 (length xs) j2len js (nj(j := k), i + 1 - k, j + 1 - k, k) =
          (nj', bi', bj', bs')"
        using Cons.prems(7) step by simp
      show ?thesis
      proof (rule Cons.IH[OF srt' js' _ _ _ new' r])
        show "i + 1 - k = j + 1 - k" using eq by simp
        show "\<forall>r\<le>i. run_before xs r \<le> k" using Cons.prems(4) True by (meson le_trans less_imp_le)
        show "i \<in> set js \<or> run_before xs (Suc i) \<le> k \<and> (nj(j := k)) i = run_before xs (Suc i)"
          using ke eq by simp
      qed
    next
      case False
      then have r: "flm_inner i 0 (length xs) j2len js (nj(j := k), besti, bestj, bestsize) =
          (nj', bi', bj', bs')"
        using Cons.prems(7) step by simp
      show ?thesis
      proof (rule Cons.IH[OF srt' js' Cons.prems(3,4) _ new' r])
        show "i \<in> set js \<or> run_before xs (Suc i) \<le> bestsize \<and> (nj(j := k)) i = run_before xs (Suc i)"
          using ke eq False by simp
      qed
    qed
  next
    case lt
    have "k \<le> run_before xs (Suc j)" using kb lt by (simp add: min_def)
    moreover have "run_before xs (Suc j) \<le> bestsize" using Cons.prems(4) lt by simp
    ultimately have nk: "\<not> k > bestsize" by simp
    then have r: "flm_inner i 0 (length xs) j2len js (nj(j := k), besti, bestj, bestsize) =
        (nj', bi', bj', bs')"
      using Cons.prems(7) step by simp
    show ?thesis
    proof (rule Cons.IH[OF srt' js' Cons.prems(3,4) _ new' r])
      show "i \<in> set js \<or> run_before xs (Suc i) \<le> bestsize \<and> (nj(j := k)) i = run_before xs (Suc i)"
        using Cons.prems(5) lt by auto
    qed
  next
    case gt
    have "i \<notin> set (j # js)" using gt \<open>\<forall>x \<in> set js. j < x\<close> by auto
    with Cons.prems(5) have fin: "run_before xs (Suc i) \<le> bestsize" "nj i = run_before xs (Suc i)"
      by simp_all
    have "k \<le> run_before xs (Suc i)" using kb gt by (simp add: min_def)
    with fin have nk: "\<not> k > bestsize" by simp
    then have r: "flm_inner i 0 (length xs) j2len js (nj(j := k), besti, bestj, bestsize) =
        (nj', bi', bj', bs')"
      using Cons.prems(7) step by simp
    show ?thesis
    proof (rule Cons.IH[OF srt' js' Cons.prems(3,4) _ new' r])
      show "i \<in> set js \<or> run_before xs (Suc i) \<le> bestsize \<and> (nj(j := k)) i = run_before xs (Suc i)"
        using fin gt by simp
    qed
  qed
qed

lemma b2j_get_cases:
  "b2j_get b x = (if popular b x then [] else positions b x)"
  by (simp add: b2j_get_def)

lemma flm_outer_diag:
  assumes "m \<le> length xs"
    and "\<forall>j. prevk j2len j \<le> run_before xs (min m j)"
    and "prevk j2len m = run_before xs m"
    and "besti = bestj"
    and "\<forall>r \<le> m. run_before xs r \<le> bestsize"
    and "flm_outer xs xs 0 (length xs) [m..<length xs] (j2len, besti, bestj, bestsize) =
           (j2len', bi', bj', bs')"
  shows "bi' = bj'"
  using assms
proof (induction "length xs - m" arbitrary: m j2len besti bestj bestsize)
  case 0
  then show ?case by simp
next
  case (Suc n)
  then have lt: "m < length xs" by linarith
  then have upt: "[m..<length xs] = m # [Suc m..<length xs]" by (simp add: upt_rec)
  have n: "n = length xs - Suc m" using Suc.hyps(2) by linarith
  have le: "Suc m \<le> length xs" using lt by simp
  obtain nj bi bj bs where inner:
    "flm_inner m 0 (length xs) j2len (b2j_get xs (xs ! m)) (\<lambda>_. 0, besti, bestj, bestsize) =
       (nj, bi, bj, bs)"
    by (metis prod_cases4)
  have rest: "flm_outer xs xs 0 (length xs) [Suc m..<length xs] (nj, bi, bj, bs) = (j2len', bi', bj', bs')"
    using Suc.prems(6) upt inner by simp
  show ?case
  proof (cases "popular xs (xs ! m)")
    case True
    then have e: "nj = (\<lambda>_. 0)" "bi = besti" "bj = bestj" "bs = bestsize"
      using inner by (simp_all add: b2j_get_cases)
    show ?thesis
    proof (rule Suc.hyps(1)[OF n le _ _ _ _ rest])
      show "\<forall>j. prevk nj j \<le> run_before xs (min (Suc m) j)" using e by (simp add: prevk_def)
      show "prevk nj (Suc m) = run_before xs (Suc m)"
        using e run_before_popular[OF True] by (simp add: prevk_def)
      show "bi = bj" using e Suc.prems(4) by simp
      show "\<forall>r\<le>Suc m. run_before xs r \<le> bs"
        using e Suc.prems(5) run_before_popular[OF True] by (auto simp: le_Suc_eq)
    qed
  next
    case False
    have inner': "flm_inner m 0 (length xs) j2len (positions xs (xs ! m)) (\<lambda>_. 0, besti, bestj, bestsize) =
       (nj, bi, bj, bs)"
      using inner False by (simp add: b2j_get_cases)
    have post: "bi = bj \<and> (\<forall>r \<le> Suc m. run_before xs r \<le> bs) \<and> nj m = run_before xs (Suc m) \<and>
         (\<forall>j. nj j \<le> run_before xs (Suc (min m j)))"
    proof (rule flm_inner_diag[OF lt False Suc.prems(2,3) positions_sorted _ Suc.prems(4,5) _ _ inner'])
      show "\<forall>j\<in>set (positions xs (xs ! m)). j < length xs \<and> xs ! j = xs ! m"
        by (simp add: positions_set)
      show "m \<in> set (positions xs (xs ! m)) \<or>
            run_before xs (Suc m) \<le> bestsize \<and> (\<lambda>_. 0::nat) m = run_before xs (Suc m)"
        using lt by (simp add: positions_set)
      show "\<forall>j. (\<lambda>_. 0::nat) j \<le> run_before xs (Suc (min m j))" by simp
    qed
    show ?thesis
    proof (rule Suc.hyps(1)[OF n le _ _ _ _ rest])
      show "\<forall>j. prevk nj j \<le> run_before xs (min (Suc m) j)"
      proof
        fix j show "prevk nj j \<le> run_before xs (min (Suc m) j)"
          using post by (cases j) (simp_all add: prevk_def)
      qed
      show "prevk nj (Suc m) = run_before xs (Suc m)" using post by (simp add: prevk_def)
      show "bi = bj" using post by simp
      show "\<forall>r\<le>Suc m. run_before xs r \<le> bs" using post by simp
    qed
  qed
qed

lemma extend_lo_diag:
  assumes "\<And>x. P x"
  shows "extend_lo P xs xs 0 0 (d, d, s) = (0, 0, s + d)"
proof (induction d arbitrary: s)
  case 0
  show ?case by (subst extend_lo.simps) (simp del: extend_lo.simps)
next
  case (Suc d)
  show ?case by (subst extend_lo.simps) (simp add: assms Suc.IH del: extend_lo.simps)
qed

lemma extend_hi_diag:
  assumes "\<And>x. P x" and "s \<le> length xs"
  shows "extend_hi P xs xs (length xs) (length xs) (0, 0, s) = (0, 0, length xs)"
  using assms(2)
proof (induction "length xs - s" arbitrary: s)
  case 0
  then show ?case by (subst extend_hi.simps) (simp del: extend_hi.simps)
next
  case (Suc n)
  then have "s < length xs" "n = length xs - (s + 1)" "s + 1 \<le> length xs" by linarith+
  with Suc.hyps(1)[of "s + 1"] show ?case
    by (subst extend_hi.simps) (simp add: assms(1) del: extend_hi.simps)
qed

lemma extend_lo_junk: "extend_lo isbjunk a b alo blo (i, j, k) = (i, j, k)"
  by (subst extend_lo.simps) (simp add: isbjunk_def del: extend_lo.simps)

lemma extend_hi_junk: "extend_hi isbjunk a b ahi bhi (i, j, k) = (i, j, k)"
  by (subst extend_hi.simps) (simp add: isbjunk_def del: extend_hi.simps)

lemma find_longest_match_self:
  "find_longest_match xs xs 0 (length xs) 0 (length xs) = (0, 0, length xs)"
proof -
  obtain j2len' d d' s where o:
    "flm_outer xs xs 0 (length xs) [0..<length xs] (\<lambda>_. 0, 0, 0, 0) = (j2len', d, d', s)"
    by (metis prod_cases4)
  have dd: "d = d'"
    by (rule flm_outer_diag[OF _ _ _ _ _ o]) (simp_all add: prevk_def)
  have "0 \<le> d \<and> d + s \<le> max 0 (length xs)"
    by (rule flm_outer_a[OF _ _ _ o]) simp_all
  then have b: "s + d \<le> length xs" by simp
  have e1: "extend_lo (\<lambda>x. \<not> isbjunk x) xs xs 0 0 (d, d, s) = (0, 0, s + d)"
    by (rule extend_lo_diag) (simp add: isbjunk_def)
  have e2: "extend_hi (\<lambda>x. \<not> isbjunk x) xs xs (length xs) (length xs) (0, 0, s + d) = (0, 0, length xs)"
    by (rule extend_hi_diag) (simp_all add: isbjunk_def b)
  show ?thesis
    unfolding find_longest_match_def o
    by (simp only: Let_def prod.case dd[symmetric] e1 e2 extend_lo_junk extend_hi_junk)
qed

lemma mb_loop_Nil: "mb_loop a b [] acc = acc"
  by simp

lemma mb_loop_self:
  "mb_loop xs xs [(0, length xs, 0, length xs)] [] = (if length xs \<noteq> 0 then [(0, 0, length xs)] else [])"
  by (simp add: find_longest_match_self)

lemma get_matching_blocks_self:
  "get_matching_blocks xs xs =
     (if length xs \<noteq> 0 then [(0, 0, length xs), (length xs, length xs, 0)] else [(0, 0, 0)])"
  unfolding get_matching_blocks_def mb_loop_self by simp

lemma get_opcodes_self:
  "get_opcodes xs xs = (if length xs \<noteq> 0 then [(Equal, 0, length xs, 0, length xs)] else [])"
  unfolding get_opcodes_def get_matching_blocks_self by simp

lemma grouped_single_equal:
  "group_loop n (fix_last n (fix_first n [(Equal, i1, i2, j1, j2)])) [] = []"
  by (simp add: fix_first_def fix_last_def)

lemma get_grouped_opcodes_self: "get_grouped_opcodes xs xs n = []"
  by (simp add: get_grouped_opcodes_def get_opcodes_self grouped_single_equal Let_def
      del: group_loop.simps)

lemma unified_diff_self: "unified_diff a a = []"
  by (simp add: unified_diff_def get_grouped_opcodes_self)

section \<open>The blocks found are matches\<close>

text \<open>
  \<open>ends_match\<close>: the \<open>k\<close> elements of \<open>a\<close> before index \<open>ea\<close> are the \<open>k\<close> elements of \<open>b\<close>
  before index \<open>eb\<close>, inside the ranges searched. \<open>best_ok\<close>: the best block so far lies
  in the ranges and is a match.
\<close>

definition ends_match :: "'a list \<Rightarrow> 'a list \<Rightarrow> nat \<Rightarrow> nat \<Rightarrow> nat \<Rightarrow> nat \<Rightarrow> nat \<Rightarrow> nat \<Rightarrow> bool" where
  "ends_match a b alo blo bhi ea eb k \<longleftrightarrow>
     k = 0 \<or> (alo + k \<le> ea \<and> blo + k \<le> eb \<and> eb \<le> bhi \<and> (\<forall>t<k. a ! (ea - k + t) = b ! (eb - k + t)))"

definition best_ok :: "'a list \<Rightarrow> 'a list \<Rightarrow> nat \<Rightarrow> nat \<Rightarrow> nat \<Rightarrow> nat \<Rightarrow> nat \<times> nat \<times> nat \<Rightarrow> bool" where
  "best_ok a b alo ahi blo bhi best \<longleftrightarrow>
     (case best of (besti, bestj, bestsize) \<Rightarrow>
        alo \<le> besti \<and> blo \<le> bestj \<and> besti + bestsize \<le> ahi \<and> bestj + bestsize \<le> bhi \<and>
        (\<forall>t<bestsize. a ! (besti + t) = b ! (bestj + t)))"

lemma ends_match_step:
  assumes "ends_match a b alo blo bhi i j p" and "a ! i = b ! j"
    and "alo \<le> i" and "blo \<le> j" and "j < bhi"
  shows "ends_match a b alo blo bhi (i + 1) (j + 1) (p + 1)"
proof (cases "p = 0")
  case True
  then show ?thesis using assms by (simp add: ends_match_def)
next
  case False
  with assms(1) have p: "alo + p \<le> i" "blo + p \<le> j"
    and m: "\<forall>t<p. a ! (i - p + t) = b ! (j - p + t)"
    unfolding ends_match_def by blast+
  have "a ! (i + 1 - (p + 1) + t) = b ! (j + 1 - (p + 1) + t)" if "t < p + 1" for t
  proof -
    have e: "i + 1 - (p + 1) + t = i - p + t" "j + 1 - (p + 1) + t = j - p + t" by simp_all
    show ?thesis
    proof (cases "t < p")
      case True
      then show ?thesis unfolding e using m by blast
    next
      case False
      with that have "t = p" by simp
      then have "i - p + t = i" "j - p + t = j" using p by simp_all
      then show ?thesis unfolding e using assms(2) by simp
    qed
  qed
  then have "\<forall>t<p + 1. a ! (i + 1 - (p + 1) + t) = b ! (j + 1 - (p + 1) + t)" by blast
  moreover have "alo + (p + 1) \<le> i + 1" "blo + (p + 1) \<le> j + 1" "j + 1 \<le> bhi"
    using p assms(5) by simp_all
  ultimately show ?thesis unfolding ends_match_def by blast
qed

lemma ends_match_best:
  assumes "ends_match a b alo blo bhi (i + 1) (j + 1) k" and "0 < k" and "i < ahi"
  shows "best_ok a b alo ahi blo bhi (i + 1 - k, j + 1 - k, k)"
  using assms by (auto simp: ends_match_def best_ok_def)

lemma flm_inner_ok:
  assumes tab: "\<forall>j. ends_match a b alo blo bhi i (j + 1) (j2len j)"
    and ia: "alo \<le> i" "i < ahi"
    and js: "\<forall>j \<in> set js. b ! j = a ! i"
    and best: "best_ok a b alo ahi blo bhi (besti, bestj, bestsize)"
    and new: "\<forall>j. ends_match a b alo blo bhi (i + 1) (j + 1) (nj j)"
    and res: "flm_inner i blo bhi j2len js (nj, besti, bestj, bestsize) = (nj', bi', bj', bs')"
  shows "best_ok a b alo ahi blo bhi (bi', bj', bs') \<and>
         (\<forall>j. ends_match a b alo blo bhi (i + 1) (j + 1) (nj' j))"
  using js best new res
proof (induction js arbitrary: nj besti bestj bestsize)
  case Nil
  then show ?case by simp
next
  case (Cons j js)
  have js': "\<forall>j \<in> set js. b ! j = a ! i" and bj: "b ! j = a ! i" using Cons.prems(1) by simp_all
  show ?case
  proof (cases "j < blo")
    case True
    then have "flm_inner i blo bhi j2len js (nj, besti, bestj, bestsize) = (nj', bi', bj', bs')"
      using Cons.prems(4) by simp
    from Cons.IH[OF js' Cons.prems(2,3) this] show ?thesis .
  next
    case nb: False
    show ?thesis
    proof (cases "bhi \<le> j")
      case True
      with nb Cons.prems show ?thesis by simp
    next
      case nh: False
      define p where "p = (if j = 0 then 0 else j2len (j - 1))"
      define k where "k = p + 1"
      have kd: "k = (if j = 0 then 0 else j2len (j - 1)) + 1" by (simp add: k_def p_def)
      have pm: "ends_match a b alo blo bhi i j p"
      proof (cases "j = 0")
        case True
        then show ?thesis by (simp add: p_def ends_match_def)
      next
        case False
        with tab[rule_format, of "j - 1"] show ?thesis by (simp add: p_def)
      qed
      have km: "ends_match a b alo blo bhi (i + 1) (j + 1) k"
        unfolding k_def by (rule ends_match_step[OF pm]) (use bj ia nb nh in simp_all)
      have new': "\<forall>x. ends_match a b alo blo bhi (i + 1) (x + 1) ((nj(j := k)) x)"
        using Cons.prems(3) km by simp
      note step = flm_inner_step[where j = j and blo = blo and bhi = bhi and k = k and ?j2len = j2len,
          OF nb nh kd]
      show ?thesis
      proof (cases "k > bestsize")
        case True
        then have r: "flm_inner i blo bhi j2len js (nj(j := k), i + 1 - k, j + 1 - k, k) = (nj', bi', bj', bs')"
          using Cons.prems(4) step by simp
        have "best_ok a b alo ahi blo bhi (i + 1 - k, j + 1 - k, k)"
          by (rule ends_match_best[OF km _ ia(2)]) (simp add: k_def)
        from Cons.IH[OF js' this new' r] show ?thesis .
      next
        case False
        then have r: "flm_inner i blo bhi j2len js (nj(j := k), besti, bestj, bestsize) = (nj', bi', bj', bs')"
          using Cons.prems(4) step by simp
        from Cons.IH[OF js' Cons.prems(2) new' r] show ?thesis .
      qed
    qed
  qed
qed

lemma b2j_get_nth: "j \<in> set (b2j_get b x) \<Longrightarrow> b ! j = x"
  by (auto simp: b2j_get_def positions_def split: if_splits)

lemma flm_outer_ok:
  assumes "alo \<le> m"
    and "\<forall>j. ends_match a b alo blo bhi m (j + 1) (j2len j)"
    and "best_ok a b alo ahi blo bhi (besti, bestj, bestsize)"
    and "flm_outer a b blo bhi [m..<ahi] (j2len, besti, bestj, bestsize) = (j2len', bi', bj', bs')"
  shows "best_ok a b alo ahi blo bhi (bi', bj', bs')"
  using assms
proof (induction "ahi - m" arbitrary: m j2len besti bestj bestsize)
  case 0
  then show ?case by simp
next
  case (Suc n)
  then have lt: "m < ahi" by linarith
  then have upt: "[m..<ahi] = m # [Suc m..<ahi]" by (simp add: upt_rec)
  have n: "n = ahi - Suc m" using Suc.hyps(2) by linarith
  obtain nj bi bj bs where inner:
    "flm_inner m blo bhi j2len (b2j_get b (a ! m)) (\<lambda>_. 0, besti, bestj, bestsize) = (nj, bi, bj, bs)"
    by (metis prod_cases4)
  have rest: "flm_outer a b blo bhi [Suc m..<ahi] (nj, bi, bj, bs) = (j2len', bi', bj', bs')"
    using Suc.prems(4) upt inner by simp
  have post: "best_ok a b alo ahi blo bhi (bi, bj, bs) \<and>
      (\<forall>j. ends_match a b alo blo bhi (m + 1) (j + 1) (nj j))"
  proof (rule flm_inner_ok[OF Suc.prems(2) Suc.prems(1) lt _ Suc.prems(3) _ inner])
    show "\<forall>j\<in>set (b2j_get b (a ! m)). b ! j = a ! m" by (simp add: b2j_get_nth)
    show "\<forall>j. ends_match a b alo blo bhi (m + 1) (j + 1) ((\<lambda>_. 0::nat) j)"
      by (simp add: ends_match_def)
  qed
  show ?case
    by (rule Suc.hyps(1)[OF n _ _ _ rest]) (use post Suc.prems(1) in simp_all)
qed

lemma extend_lo_ok:
  "best_ok a b alo ahi blo bhi (besti, bestj, bestsize) \<Longrightarrow>
   best_ok a b alo ahi blo bhi (extend_lo P a b alo blo (besti, bestj, bestsize))"
proof (induction P a b alo blo "(besti, bestj, bestsize)" arbitrary: besti bestj bestsize
    rule: extend_lo.induct)
  case (1 P a b alo blo besti bestj bestsize)
  show ?case
  proof (cases "besti > alo \<and> bestj > blo \<and> P (b ! (bestj - 1)) \<and> a ! (besti - 1) = b ! (bestj - 1)")
    case True
    have ok: "best_ok a b alo ahi blo bhi (besti - 1, bestj - 1, bestsize + 1)"
      unfolding best_ok_def prod.case
    proof (intro conjI allI impI)
      fix t assume t: "t < bestsize + 1"
      show "a ! (besti - 1 + t) = b ! (bestj - 1 + t)"
      proof (cases t)
        case 0
        then show ?thesis using True by simp
      next
        case (Suc t')
        with t "1.prems" True show ?thesis by (simp add: best_ok_def)
      qed
    qed (use True "1.prems" in \<open>auto simp add: best_ok_def\<close>)
    have "extend_lo P a b alo blo (besti, bestj, bestsize) =
          extend_lo P a b alo blo (besti - 1, bestj - 1, bestsize + 1)"
      using True by (subst extend_lo.simps) (simp del: extend_lo.simps)
    with "1.hyps"[OF True ok] show ?thesis by simp
  next
    case False
    then have "extend_lo P a b alo blo (besti, bestj, bestsize) = (besti, bestj, bestsize)"
      by (subst extend_lo.simps) (auto simp del: extend_lo.simps)
    with "1.prems" show ?thesis by simp
  qed
qed

lemma extend_hi_ok:
  "best_ok a b alo ahi blo bhi (besti, bestj, bestsize) \<Longrightarrow>
   best_ok a b alo ahi blo bhi (extend_hi P a b ahi bhi (besti, bestj, bestsize))"
proof (induction P a b ahi bhi "(besti, bestj, bestsize)" arbitrary: besti bestj bestsize
    rule: extend_hi.induct)
  case (1 P a b ahi bhi besti bestj bestsize)
  show ?case
  proof (cases "besti + bestsize < ahi \<and> bestj + bestsize < bhi \<and> P (b ! (bestj + bestsize)) \<and>
         a ! (besti + bestsize) = b ! (bestj + bestsize)")
    case True
    have ok: "best_ok a b alo ahi blo bhi (besti, bestj, bestsize + 1)"
      unfolding best_ok_def prod.case
    proof (intro conjI allI impI)
      fix t assume t: "t < bestsize + 1"
      show "a ! (besti + t) = b ! (bestj + t)"
      proof (cases "t < bestsize")
        case True
        with "1.prems" show ?thesis by (simp add: best_ok_def)
      next
        case False
        with t have "t = bestsize" by simp
        with \<open>besti + bestsize < ahi \<and> bestj + bestsize < bhi \<and> P (b ! (bestj + bestsize)) \<and>
         a ! (besti + bestsize) = b ! (bestj + bestsize)\<close> show ?thesis by simp
      qed
    qed (use True "1.prems" in \<open>simp_all add: best_ok_def\<close>)
    have "extend_hi P a b ahi bhi (besti, bestj, bestsize) =
          extend_hi P a b ahi bhi (besti, bestj, bestsize + 1)"
      using True by (subst extend_hi.simps) (simp del: extend_hi.simps)
    with "1.hyps"[OF True ok] show ?thesis by simp
  next
    case False
    then have "extend_hi P a b ahi bhi (besti, bestj, bestsize) = (besti, bestj, bestsize)"
      by (subst extend_hi.simps) (auto simp del: extend_hi.simps)
    with "1.prems" show ?thesis by simp
  qed
qed

lemma find_longest_match_ok:
  assumes "alo \<le> ahi" and "blo \<le> bhi"
  shows "best_ok a b alo ahi blo bhi (find_longest_match a b alo ahi blo bhi)"
proof -
  obtain j0 i0 jj0 k0 where o: "flm_outer a b blo bhi [alo..<ahi] (\<lambda>_. 0, alo, blo, 0) = (j0, i0, jj0, k0)"
    by (metis prod_cases4)
  have b0: "best_ok a b alo ahi blo bhi (i0, jj0, k0)"
    by (rule flm_outer_ok[OF _ _ _ o]) (use assms in \<open>simp_all add: ends_match_def best_ok_def\<close>)
  obtain i1 j1 k1 where e1: "extend_lo (\<lambda>x. \<not> isbjunk x) a b alo blo (i0, jj0, k0) = (i1, j1, k1)"
    by (metis prod_cases3)
  obtain i2 j2 k2 where e2: "extend_hi (\<lambda>x. \<not> isbjunk x) a b ahi bhi (i1, j1, k1) = (i2, j2, k2)"
    by (metis prod_cases3)
  obtain i3 j3 k3 where e3: "extend_lo isbjunk a b alo blo (i2, j2, k2) = (i3, j3, k3)"
    by (metis prod_cases3)
  have f: "find_longest_match a b alo ahi blo bhi = extend_hi isbjunk a b ahi bhi (i3, j3, k3)"
    unfolding find_longest_match_def o by (simp only: Let_def prod.case e1 e2 e3)
  have b1: "best_ok a b alo ahi blo bhi (i1, j1, k1)" using extend_lo_ok[OF b0] e1 by metis
  have b2: "best_ok a b alo ahi blo bhi (i2, j2, k2)" using extend_hi_ok[OF b1] e2 by metis
  have b3: "best_ok a b alo ahi blo bhi (i3, j3, k3)" using extend_lo_ok[OF b2] e3 by metis
  show ?thesis unfolding f by (rule extend_hi_ok[OF b3])
qed


section \<open>An empty diff means equal sequences\<close>

definition real_match :: "'a list \<Rightarrow> 'a list \<Rightarrow> block \<Rightarrow> bool" where
  "real_match a b blk \<longleftrightarrow>
     (case blk of (i, j, k) \<Rightarrow>
        i + k \<le> length a \<and> j + k \<le> length b \<and> (\<forall>t<k. a ! (i + t) = b ! (j + t)))"

definition range_ok :: "'a list \<Rightarrow> 'a list \<Rightarrow> nat \<times> nat \<times> nat \<times> nat \<Rightarrow> bool" where
  "range_ok a b q \<longleftrightarrow>
     (case q of (alo, ahi, blo, bhi) \<Rightarrow> alo \<le> ahi \<and> ahi \<le> length a \<and> blo \<le> bhi \<and> bhi \<le> length b)"

definition nonzero :: "block \<Rightarrow> bool" where
  "nonzero blk \<longleftrightarrow> snd (snd blk) \<noteq> 0"

lemma mb_loop_real:
  assumes "\<forall>q \<in> set queue. range_ok a b q"
    and "\<forall>m \<in> set mbs. real_match a b m \<and> nonzero m"
  shows "\<forall>m \<in> set (mb_loop a b queue mbs). real_match a b m \<and> nonzero m"
  using assms
proof (induction a b queue mbs rule: mb_loop.induct)
  case (1 a b matching_blocks)
  then show ?case by simp
next
  case (2 a b alo ahi blo bhi queue matching_blocks)
  obtain i j k where f: "find_longest_match a b alo ahi blo bhi = (i, j, k)"
    by (metis prod_cases3)
  have r: "alo \<le> ahi" "ahi \<le> length a" "blo \<le> bhi" "bhi \<le> length b"
    using "2.prems"(1) by (simp_all add: range_ok_def)
  have ok: "best_ok a b alo ahi blo bhi (i, j, k)"
    using find_longest_match_ok[OF r(1) r(3), of a b] f by simp
  then have b: "alo \<le> i" "blo \<le> j" "i + k \<le> ahi" "j + k \<le> bhi"
    and m: "\<forall>t<k. a ! (i + t) = b ! (j + t)"
    unfolding best_ok_def prod.case by blast+
  have q: "\<forall>q \<in> set queue. range_ok a b q" using "2.prems"(1) by simp
  show ?case
  proof (cases "k = 0")
    case True
    have "mb_loop a b ((alo, ahi, blo, bhi) # queue) matching_blocks = mb_loop a b queue matching_blocks"
      using f True by simp
    moreover have "\<forall>m \<in> set (mb_loop a b queue matching_blocks). real_match a b m \<and> nonzero m"
      by (rule "2.IH"(2)[OF f[symmetric] refl _ q "2.prems"(2)]) (simp add: True)
    ultimately show ?thesis by simp
  next
    case False
    define queue' where "queue' =
      (if i + k < ahi \<and> j + k < bhi then [(i + k, ahi, j + k, bhi)] else []) @
      (if alo < i \<and> blo < j then [(alo, i, blo, j)] else []) @ queue"
    have e: "mb_loop a b ((alo, ahi, blo, bhi) # queue) matching_blocks =
             mb_loop a b queue' (matching_blocks @ [(i, j, k)])"
      using f False by (simp add: queue'_def)
    have q': "\<forall>q \<in> set queue'. range_ok a b q"
      using q b r by (auto simp: queue'_def range_ok_def)
    have "real_match a b (i, j, k)"
      using b m r by (simp add: real_match_def)
    then have mb': "\<forall>m \<in> set (matching_blocks @ [(i, j, k)]). real_match a b m \<and> nonzero m"
      using "2.prems"(2) False by (simp add: nonzero_def)
    have "\<forall>m \<in> set (mb_loop a b queue' (matching_blocks @ [(i, j, k)])). real_match a b m \<and> nonzero m"
      unfolding queue'_def
      by (rule "2.IH"(1)[OF f[symmetric] refl False q'[unfolded queue'_def] mb'])
    then show ?thesis unfolding e .
  qed
qed

lemma real_match_merge:
  assumes "real_match a b (i1, j1, k1)" and "real_match a b (i1 + k1, j1 + k1, k2)"
  shows "real_match a b (i1, j1, k1 + k2)"
proof -
  have "a ! (i1 + t) = b ! (j1 + t)" if "t < k1 + k2" for t
  proof (cases "t < k1")
    case True
    then show ?thesis using assms(1) by (simp add: real_match_def)
  next
    case False
    then have "t - k1 < k2" "i1 + t = i1 + k1 + (t - k1)" "j1 + t = j1 + k1 + (t - k1)"
      using that by simp_all
    then show ?thesis using assms(2) unfolding real_match_def prod.case by metis
  qed
  then show ?thesis using assms by (simp add: real_match_def add.assoc)
qed

lemma collapse_real:
  assumes "\<forall>m \<in> set bs. real_match a b m \<and> nonzero m"
    and "real_match a b p"
    and "\<forall>m \<in> set acc. real_match a b m \<and> nonzero m"
  shows "\<forall>m \<in> set (collapse bs p acc). real_match a b m \<and> nonzero m"
  using assms
proof (induction bs p acc rule: collapse.induct)
  case (1 i1 j1 k1 non_adjacent)
  then show ?case by (simp add: nonzero_def)
next
  case (2 i2 j2 k2 rest i1 j1 k1 non_adjacent)
  have rest: "\<forall>m \<in> set rest. real_match a b m \<and> nonzero m"
    and r2: "real_match a b (i2, j2, k2)" using "2.prems"(1) by simp_all
  show ?case
  proof (cases "i1 + k1 = i2 \<and> j1 + k1 = j2")
    case True
    then have "real_match a b (i1, j1, k1 + k2)"
      using real_match_merge[OF "2.prems"(2)] r2 by simp
    from "2.IH"(1)[OF True rest this "2.prems"(3)] True show ?thesis by simp
  next
    case False
    have "\<forall>m \<in> set (if k1 \<noteq> 0 then non_adjacent @ [(i1, j1, k1)] else non_adjacent).
            real_match a b m \<and> nonzero m"
      using "2.prems"(2,3) by (simp add: nonzero_def)
    from "2.IH"(2)[OF False rest r2 this] False show ?thesis by auto
  qed
qed

lemma matching_blocks_real:
  obtains bs where "get_matching_blocks a b = bs @ [(length a, length b, 0)]"
    and "\<forall>m \<in> set bs. real_match a b m \<and> nonzero m"
proof -
  have "\<forall>m \<in> set (mb_loop a b [(0, length a, 0, length b)] []). real_match a b m \<and> nonzero m"
    by (rule mb_loop_real) (simp_all add: range_ok_def)
  then have "\<forall>m \<in> set (sort (mb_loop a b [(0, length a, 0, length b)] [])). real_match a b m \<and> nonzero m"
    by simp
  then have "\<forall>m \<in> set (collapse (sort (mb_loop a b [(0, length a, 0, length b)] [])) (0, 0, 0) []).
      real_match a b m \<and> nonzero m"
    by (rule collapse_real) (simp_all add: real_match_def)
  then show ?thesis using that by (simp add: get_matching_blocks_def)
qed

lemma group_loop_empty:
  "group_loop n codes g = [] \<Longrightarrow> g @ codes = [] \<or> (\<exists>c. g @ codes = [c] \<and> fst c = Equal)"
proof (induction codes arbitrary: g)
  case Nil
  then show ?case by (cases g) (auto split: if_splits simp: length_Suc_conv)
next
  case (Cons c codes)
  obtain tag i1 i2 j1 j2 where c: "c = (tag, i1, i2, j1, j2)" by (metis prod_cases5)
  from Cons.prems have "group_loop n codes (g @ [c]) = []"
    unfolding c by (simp split: if_splits)
  from Cons.IH[OF this] show ?case by simp
qed

lemma fix_first_tags: "length (fix_first n codes) = length codes \<and> map fst (fix_first n codes) = map fst codes"
  by (cases codes) (auto simp: fix_first_def split: prod.splits)

lemma fix_last_tags: "length (fix_last n codes) = length codes \<and> map fst (fix_last n codes) = map fst codes"
proof (cases "codes ! (length codes - 1)")
  case (fields tag i1 i2 j1 j2)
  show ?thesis
  proof (cases "codes = []")
    case True
    then show ?thesis by (simp add: fix_last_def split: prod.splits)
  next
    case False
    then have "(map fst codes)[length codes - 1 := tag] = map fst codes"
      using fields by (metis diff_less fst_conv length_greater_0_conv less_numeral_extra(1) list_update_id nth_map length_map)
    then show ?thesis using fields by (auto simp add: fix_last_def map_update)
  qed
qed

lemma grouped_empty_opcodes:
  assumes "get_grouped_opcodes a b n = []"
  shows "get_opcodes a b = [] \<or> (\<exists>c. get_opcodes a b = [c] \<and> fst c = Equal)"
proof -
  define codes where "codes = (if get_opcodes a b = [] then [(Equal, 0, 1, 0, 1)] else get_opcodes a b)"
  define fixed where "fixed = fix_last n (fix_first n codes)"
  have "group_loop n fixed [] = []"
    using assms by (simp add: get_grouped_opcodes_def Let_def codes_def fixed_def)
  from group_loop_empty[OF this] have "fixed = [] \<or> (\<exists>c. fixed = [c] \<and> fst c = Equal)" by simp
  moreover have "length fixed = length codes" "map fst fixed = map fst codes"
    unfolding fixed_def using fix_first_tags[of n codes] fix_last_tags[of n "fix_first n codes"] by simp_all
  ultimately have "codes = [] \<or> (\<exists>c. codes = [c] \<and> fst c = Equal)"
    by (cases codes) auto
  then show ?thesis by (auto simp: codes_def split: if_splits)
qed

lemma opcodes_loop_sentinel:
  "opcodes_loop [(la, lb, 0)] i j = [] \<longleftrightarrow> la \<le> i \<and> lb \<le> j"
  by auto

lemma opcodes_equal_blocks:
  assumes "get_opcodes a b = [] \<or> (\<exists>c. get_opcodes a b = [c] \<and> fst c = Equal)"
  shows "a = b"
proof -
  obtain bs where g: "get_matching_blocks a b = bs @ [(length a, length b, 0)]"
    and r: "\<forall>m \<in> set bs. real_match a b m \<and> nonzero m"
    by (rule matching_blocks_real)
  show ?thesis
  proof (cases bs)
    case Nil
    then have "get_opcodes a b = opcodes_loop [(length a, length b, 0)] 0 0"
      by (simp add: get_opcodes_def g)
    with assms have "length a = 0 \<and> length b = 0" by (auto split: if_splits)
    then show ?thesis by simp
  next
    case (Cons blk rest)
    obtain i j k where blk: "blk = (i, j, k)" by (metis prod_cases3)
    have k: "k \<noteq> 0" and m: "real_match a b (i, j, k)" using r Cons blk by (simp_all add: nonzero_def)
    define pre where "pre = (if 0 < i \<and> 0 < j then [(Replace, 0::nat, i, 0::nat, j)]
      else if 0 < i then [(Delete, 0, i, 0, j)]
      else if 0 < j then [(Insert, 0, i, 0, j)] else [])"
    define post where "post = opcodes_loop (rest @ [(length a, length b, 0)]) (i + k) (j + k)"
    have o: "get_opcodes a b = pre @ [(Equal, i, i + k, j, j + k)] @ post"
      using k by (simp add: get_opcodes_def g Cons blk pre_def post_def)
    from assms o have pp: "pre = [] \<and> post = []"
      by (cases pre) (auto simp: Cons_eq_append_conv)
    then have z: "i = 0" "j = 0" by (auto simp: pre_def split: if_splits)
    have rest: "rest = []"
    proof (rule ccontr)
      assume "rest \<noteq> []"
      then obtain blk' rest' where c: "rest = blk' # rest'" by (cases rest) auto
      obtain i' j' k' where blk': "blk' = (i', j', k')" by (metis prod_cases3)
      have "k' \<noteq> 0" using r Cons c blk' by (simp add: nonzero_def)
      then have "post \<noteq> []" by (simp add: post_def c blk')
      with pp show False by simp
    qed
    with pp have "length a \<le> k \<and> length b \<le> k" by (simp add: post_def z split: if_splits)
    with m z have "length a = k" "length b = k" "\<forall>t<k. a ! t = b ! t"
      by (simp_all add: real_match_def)
    then show ?thesis by (simp add: nth_equalityI)
  qed
qed

lemma unified_diff_empty: "unified_diff a b = [] \<Longrightarrow> a = b"
proof -
  assume "unified_diff a b = []"
  then have "get_grouped_opcodes a b 3 = []"
    by (simp add: unified_diff_def split: list.splits)
  from opcodes_equal_blocks[OF grouped_empty_opcodes[OF this]] show ?thesis .
qed

lemma unified_diff_empty_iff: "unified_diff a b = [] \<longleftrightarrow> a = b"
  using unified_diff_empty unified_diff_self by blast

section \<open>The passes of a session, one after the other\<close>

lemma split_nl_nonempty: "split_nl s \<noteq> []"
  by (cases s) simp_all

lemma split_nl_line:
  "CHR 0x0A \<notin> set l \<Longrightarrow> split_nl (l @ rest) = (l @ hd (split_nl rest)) # tl (split_nl rest)"
  by (induction l) (auto simp add: split_nl_nonempty)

lemma split_nl_lines:
  assumes "\<forall>l \<in> set (l0 # ls). CHR 0x0A \<notin> set l"
  shows "split_nl (l0 @ concat (map (\<lambda>x. CHR 0x0A # x) ls)) = l0 # ls"
  using assms
proof (induction ls arbitrary: l0)
  case Nil
  then show ?case using split_nl_line[of l0 "[]"] by simp
next
  case (Cons r rs)
  have "split_nl (r @ concat (map (\<lambda>x. CHR 0x0A # x) rs)) = r # rs"
    by (rule Cons.IH) (use Cons.prems in simp)
  moreover have "CHR 0x0A \<notin> set l0" using Cons.prems by simp
  ultimately show ?case
    using split_nl_line[of l0 "CHR 0x0A # r @ concat (map (\<lambda>x. CHR 0x0A # x) rs)"] by simp
qed

lemma split_nl_join_nl:
  assumes "ls \<noteq> []" and "\<forall>l \<in> set ls. CHR 0x0A \<notin> set l"
  shows "split_nl (join_nl ls) = ls"
proof -
  obtain l0 rest where ls: "ls = l0 # rest" using assms(1) by (cases ls) auto
  show ?thesis unfolding ls join_nl_def list.case
    by (rule split_nl_lines) (use assms(2) ls in simp)
qed

lemma attempt_text:
  "fst (attempt L nc formatted et w) = (if returncode w = 0 then Some (saved_text w) else et)"
  by (simp add: attempt_editor_succeeded attempt_editor_failed)

lemma attempt_unparseable:
  assumes "returncode w = 0" and "json_loads L (saved_text w) = None"
  shows "attempt L nc formatted et w =
     (Some (saved_text w),
      [RunEditor (case et of None \<Rightarrow> formatted | Some t \<Rightarrow> t), CprintExn JSONDecodeError, ConfirmPrompt],
      if try_again w then Continue else Break)"
  using assms by (simp add: attempt_def edit_text_with_editor_def handler_def Let_def)

lemma attempt_reconcile_fails:
  assumes "returncode w = 0" and "json_loads L (saved_text w) = Some edited_nc"
    and "split_nl (json_dumps L edited_nc) \<noteq> split_nl (json_dumps L nc)"
    and "reconcile L (now_ms w) nc edited_nc = Inl e"
  shows "attempt L nc formatted et w =
     (Some (saved_text w), [RunEditor (case et of None \<Rightarrow> formatted | Some t \<Rightarrow> t)], Propagate e)"
proof -
  have "unified_diff (split_nl (json_dumps L nc)) (split_nl (json_dumps L edited_nc)) \<noteq> []"
    using assms(3) by (auto simp: unified_diff_empty_iff)
  then show ?thesis
    using assms(1,2,4) by (simp add: attempt_def edit_text_with_editor_def Let_def)
qed

lemma attempt_applied:
  assumes "returncode w = 0" and "json_loads L (saved_text w) = Some edited_nc"
    and "split_nl (json_dumps L edited_nc) \<noteq> split_nl (json_dumps L nc)"
    and "reconcile L (now_ms w) nc edited_nc = Inr d"
    and "choice w \<noteq> ''2''" and "choice w \<noteq> ''3''"
  shows "JsonToNodesConfiguration (json_dumps L d) \<in> set (fst (snd (attempt L nc formatted et w)))"
    and "json_to_nodes_configuration L (json_dumps L d) = Inr b \<Longrightarrow>
         OverwriteNodesConfiguration b \<in> set (fst (snd (attempt L nc formatted et w)))"
proof -
  have nd: "unified_diff (split_nl (json_dumps L nc)) (split_nl (json_dumps L edited_nc)) \<noteq> []"
    using assms(3) by (auto simp: unified_diff_empty_iff)
  have att: "fst (snd (attempt L nc formatted et w)) =
     RunEditor (case et of None \<Rightarrow> formatted | Some t \<Rightarrow> t) #
     fst (confirm_and_apply L w (split_nl (json_dumps L nc)) d)"
    using assms(1,2,4) nd
    by (simp add: attempt_def edit_text_with_editor_def Let_def split: prod.split)
  show "JsonToNodesConfiguration (json_dumps L d) \<in> set (fst (snd (attempt L nc formatted et w)))"
    unfolding att using assms(5,6)
    by (simp add: confirm_and_apply_def Let_def handler_def split: sum.split option.split)
  show "OverwriteNodesConfiguration b \<in> set (fst (snd (attempt L nc formatted et w)))"
    if "json_to_nodes_configuration L (json_dumps L d) = Inr b"
    unfolding att using assms(5,6) that
    by (simp add: confirm_and_apply_def Let_def handler_def split: option.split)
qed

text \<open>
  In the words of the specification: the text of the last run of the editor that succeeded,
  if there is one, and the text on which the editor is opened after the passes \<open>ps\<close>.
\<close>

definition last_saved :: "answers list \<Rightarrow> string option" where
  "last_saved ps =
     (case filter (\<lambda>w. returncode w = 0) ps of
        [] \<Rightarrow> None
      | w # ws \<Rightarrow> Some (saved_text (last (w # ws))))"

definition reseed_text :: "string \<Rightarrow> answers list \<Rightarrow> string" where
  "reseed_text formatted ps = (case last_saved ps of None \<Rightarrow> formatted | Some t \<Rightarrow> t)"

lemma last_saved_Cons:
  "last_saved (w # ps) =
     (case last_saved ps of
        None \<Rightarrow> (if returncode w = 0 then Some (saved_text w) else None)
      | Some t \<Rightarrow> Some t)"
  by (simp add: last_saved_def split: list.splits)

lemma edit_loop_append:
  assumes "snd (edit_loop L nc formatted et ps) = Waiting"
  shows "edit_loop L nc formatted et (ps @ ws) =
     (fst (edit_loop L nc formatted et ps) @
        fst (edit_loop L nc formatted (case last_saved ps of None \<Rightarrow> et | Some t \<Rightarrow> Some t) ws),
      snd (edit_loop L nc formatted (case last_saved ps of None \<Rightarrow> et | Some t \<Rightarrow> Some t) ws))"
  using assms
proof (induction ps arbitrary: et)
  case Nil
  show ?case by (simp add: last_saved_def)
next
  case (Cons w ps)
  obtain et1 acts c where att: "attempt L nc formatted et w = (et1, acts, c)"
    by (metis prod_cases3)
  have et1: "et1 = (if returncode w = 0 then Some (saved_text w) else et)"
    using attempt_text[of L nc formatted et w] att by simp
  have c: "c = Continue"
    using Cons.prems att by (cases c) (simp_all add: edit_loop_Cons del: edit_loop.simps)
  have w': "snd (edit_loop L nc formatted et1 ps) = Waiting"
    using Cons.prems att c by (simp add: edit_loop_Cons del: edit_loop.simps)
  have k: "(case last_saved (w # ps) of None \<Rightarrow> et | Some t \<Rightarrow> Some t) =
           (case last_saved ps of None \<Rightarrow> et1 | Some t \<Rightarrow> Some t)"
    by (simp add: last_saved_Cons et1 split: option.split)
  have l: "edit_loop L nc formatted et (w # xs) =
           (acts @ fst (edit_loop L nc formatted et1 xs), snd (edit_loop L nc formatted et1 xs))" for xs
    by (simp add: edit_loop_Cons att c del: edit_loop.simps)
  show ?case
    unfolding k append_Cons l Cons.IH[OF w'] by simp
qed

lemma edit_append:
  assumes "get_client f = None" and "get_nodes_config f = Inr nc"
    and "snd (edit L f ps) = Waiting"
  shows "edit L f (ps @ ws) =
     (fst (edit L f ps) @ fst (edit_loop L nc (json_dumps L nc) (last_saved ps) ws),
      snd (edit_loop L nc (json_dumps L nc) (last_saved ps) ws))"
proof -
  have w: "snd (edit_loop L nc (json_dumps L nc) None ps) = Waiting"
    using assms(3) by (simp add: edit_fetched[OF assms(1,2)])
  have k: "(case last_saved ps of None \<Rightarrow> None | Some t \<Rightarrow> Some t) = last_saved ps"
    by (cases "last_saved ps") simp_all
  show ?thesis
    by (simp add: edit_fetched[OF assms(1,2)] edit_loop_append[OF w] k)
qed

lemma edit_pass_actions:
  assumes "get_client f = None" and "get_nodes_config f = Inr nc"
    and "snd (edit L f ps) = Waiting"
    and "a \<in> set (fst (snd (attempt L nc (json_dumps L nc) (last_saved ps) w)))"
  shows "a \<in> set (fst (edit L f (ps @ w # ws)))"
proof -
  obtain et1 acts c where att: "attempt L nc (json_dumps L nc) (last_saved ps) w = (et1, acts, c)"
    by (metis prod_cases3)
  with assms(4) have "a \<in> set acts" by simp
  then have "a \<in> set (fst (edit_loop L nc (json_dumps L nc) (last_saved ps) (w # ws)))"
    by (cases c) (simp_all add: edit_loop_Cons att del: edit_loop.simps)
  then show ?thesis by (simp add: edit_append[OF assms(1,2,3)])
qed

lemma edit_no_pass:
  assumes "get_client f = None" and "get_nodes_config f = Inr nc"
  shows "edit L f [] = ([GetClient, GetNodesConfig], Waiting)"
  by (simp add: edit_fetched[OF assms])

text \<open>
  C10. A session has got through the passes \<open>ps\<close> and goes on; in the next pass the editor
  exits with a status other than 0. The pass opens the editor on the text saved by the last
  pass of \<open>ps\<close> whose editor exited with status 0, on \<^verbatim>\<open>formatted\<close> if there is none, prints
  the \<^verbatim>\<open>EditorError\<close> and asks whether to try again. What the editor left in the file does
  not matter to this pass nor to any pass after it. If the user asks to try again, the next
  pass opens the editor on the same text once more.
\<close>

theorem failed_editor_run_discarded:
  assumes "get_client f = None" and "get_nodes_config f = Inr nc"
    and "snd (edit L f ps) = Waiting"
    and "returncode w \<noteq> 0"
  shows "edit L f (ps @ [w]) =
           (fst (edit L f ps) @
              [RunEditor (reseed_text (json_dumps L nc) ps),
               CprintExn (EditorError ''Non-zero return code from editor''), ConfirmPrompt],
            if try_again w then Waiting else Returned (RInt 0)) \<and>
         edit L f (ps @ w\<lparr>saved_text := other\<rparr> # ws) = edit L f (ps @ w # ws) \<and>
         (try_again w \<longrightarrow>
            (\<exists>acts. fst (edit L f (ps @ w # w' # ws)) =
               fst (edit L f ps) @
               [RunEditor (reseed_text (json_dumps L nc) ps),
                CprintExn (EditorError ''Non-zero return code from editor''), ConfirmPrompt,
                RunEditor (reseed_text (json_dumps L nc) ps)] @ acts))"
proof (intro conjI impI)
  let ?F = "json_dumps L nc"
  let ?et = "last_saved ps"
  have seed: "(case ?et of None \<Rightarrow> ?F | Some t \<Rightarrow> t) = reseed_text ?F ps"
    by (simp add: reseed_text_def)
  note app = edit_append[OF assms(1,2,3)]
  note failed = attempt_editor_failed[OF assms(4), of L nc ?F ?et, unfolded seed]
  show "edit L f (ps @ [w]) =
           (fst (edit L f ps) @
              [RunEditor (reseed_text ?F ps),
               CprintExn (EditorError ''Non-zero return code from editor''), ConfirmPrompt],
            if try_again w then Waiting else Returned (RInt 0))"
    by (simp add: app edit_loop_Cons failed seed del: edit_loop.simps(2))
  have rc': "returncode (w\<lparr>saved_text := other\<rparr>) \<noteq> 0" using assms(4) by simp
  have "edit_loop L nc ?F ?et (w\<lparr>saved_text := other\<rparr> # ws) = edit_loop L nc ?F ?et (w # ws)"
    by (simp add: edit_loop_Cons failed attempt_editor_failed[OF rc', of L nc ?F ?et] seed
        del: edit_loop.simps)
  then show "edit L f (ps @ w\<lparr>saved_text := other\<rparr> # ws) = edit L f (ps @ w # ws)"
    by (simp add: app)
next
  let ?F = "json_dumps L nc"
  let ?et = "last_saved ps"
  assume t: "try_again w"
  have seed: "(case ?et of None \<Rightarrow> ?F | Some t \<Rightarrow> t) = reseed_text ?F ps"
    by (simp add: reseed_text_def)
  note failed = attempt_editor_failed[OF assms(4), of L nc ?F ?et, unfolded seed]
  obtain acts where acts: "fst (snd (attempt L nc ?F ?et w')) = RunEditor (reseed_text ?F ps) # acts"
    using attempt_starts_with_editor[of L nc ?F ?et w'] unfolding seed by blast
  obtain et' acts' c where att: "attempt L nc ?F ?et w' = (et', acts', c)"
    by (metis prod_cases3)
  with acts have acts': "acts' = RunEditor (reseed_text ?F ps) # acts" by simp
  have "\<exists>rest. fst (edit_loop L nc ?F ?et (w' # ws)) = RunEditor (reseed_text ?F ps) # rest"
    unfolding edit_loop_Cons att acts' by (cases c) simp_all
  then obtain rest where
    rest: "fst (edit_loop L nc ?F ?et (w' # ws)) = RunEditor (reseed_text ?F ps) # rest" ..
  have "fst (edit_loop L nc ?F ?et (w # w' # ws)) =
      [RunEditor (reseed_text ?F ps),
       CprintExn (EditorError ''Non-zero return code from editor''), ConfirmPrompt,
       RunEditor (reseed_text ?F ps)] @ rest"
    unfolding edit_loop_Cons[of L nc ?F ?et w] failed using t rest by simp
  then show "\<exists>acts. fst (edit L f (ps @ w # w' # ws)) =
               fst (edit L f ps) @
               [RunEditor (reseed_text ?F ps),
                CprintExn (EditorError ''Non-zero return code from editor''), ConfirmPrompt,
                RunEditor (reseed_text ?F ps)] @ acts"
    by (simp add: edit_append[OF assms(1,2,3)])
qed


text \<open>
  A session of three passes: the editor exits with status 0 and leaves the text \<^verbatim>\<open>{\<close>,
  which does not parse; then it exits twice with status 1, having left \<^verbatim>\<open>{}\<close>. The
  editor is opened on the baseline, then on \<^verbatim>\<open>{\<close>, then on \<^verbatim>\<open>{\<close> again.
\<close>

definition half_saved :: answers where
  "half_saved = \<lparr>returncode = 0, saved_text = ''{'', now_ms = 1699999998000, choice = ''1'',
     overwrite_error = None, try_again = True\<rparr>"

lemma example_loads_half: "json_loads example_lib ''{'' = None"
  by (simp add: example_lib_def join_nl_def edited_lines_def baseline_lines_def)

lemma example_dumps_baseline: "json_dumps example_lib baseline_doc = join_nl baseline_lines"
  by (simp add: example_lib_def)

lemma half_saved_pass:
  "edit example_lib fetched [half_saved] =
     ([GetClient, GetNodesConfig, RunEditor (join_nl baseline_lines), CprintExn JSONDecodeError,
       ConfirmPrompt], Waiting)"
proof -
  have a: "get_client fetched = None" by (simp add: fetched_def)
  have b: "get_nodes_config fetched = Inr baseline_doc" by (simp add: fetched_def)
  have rc: "returncode half_saved = 0" by (simp add: half_saved_def)
  have l: "json_loads example_lib (saved_text half_saved) = None"
    using example_loads_half by (simp add: half_saved_def)
  have t: "try_again half_saved" by (simp add: half_saved_def)
  show ?thesis
    using t
    by (simp add: edit_fetched[OF a b] edit_loop_Cons attempt_unparseable[OF rc l]
        example_dumps_baseline del: edit_loop.simps(2))
qed

theorem failed_editor_run_discarded_witness:
  "get_client fetched = None \<and> get_nodes_config fetched = Inr baseline_doc \<and>
   snd (edit example_lib fetched [half_saved]) = Waiting \<and>
   returncode failed_editor \<noteq> 0 \<and> try_again failed_editor \<and>
   saved_text failed_editor = ''{}'' \<and>
   edit example_lib fetched [half_saved, failed_editor] =
     ([GetClient, GetNodesConfig,
       RunEditor (join_nl baseline_lines), CprintExn JSONDecodeError, ConfirmPrompt,
       RunEditor ''{'', CprintExn (EditorError ''Non-zero return code from editor''), ConfirmPrompt],
      Waiting) \<and>
   (\<exists>acts. fst (edit example_lib fetched [half_saved, failed_editor, failed_editor]) =
      [GetClient, GetNodesConfig,
       RunEditor (join_nl baseline_lines), CprintExn JSONDecodeError, ConfirmPrompt,
       RunEditor ''{'', CprintExn (EditorError ''Non-zero return code from editor''), ConfirmPrompt,
       RunEditor ''{''] @ acts)"
proof -
  have a: "get_client fetched = None" by (simp add: fetched_def)
  have b: "get_nodes_config fetched = Inr baseline_doc" by (simp add: fetched_def)
  have c: "snd (edit example_lib fetched [half_saved]) = Waiting" by (simp add: half_saved_pass)
  have d: "returncode failed_editor \<noteq> 0" by (simp add: failed_editor_def)
  have e: "try_again failed_editor" by (simp add: failed_editor_def)
  have g: "saved_text failed_editor = ''{}''" by (simp add: failed_editor_def)
  have s: "reseed_text (json_dumps example_lib baseline_doc) [half_saved] = ''{''"
    by (simp add: reseed_text_def last_saved_def half_saved_def)
  note th = failed_editor_run_discarded[OF a b c d, of "''{}''" "[]" failed_editor, unfolded s half_saved_pass]
  from th e have 1: "edit example_lib fetched [half_saved, failed_editor] =
     ([GetClient, GetNodesConfig,
       RunEditor (join_nl baseline_lines), CprintExn JSONDecodeError, ConfirmPrompt,
       RunEditor ''{'', CprintExn (EditorError ''Non-zero return code from editor''), ConfirmPrompt],
      Waiting)"
    by simp
  from th e have 2: "\<exists>acts. fst (edit example_lib fetched [half_saved, failed_editor, failed_editor]) =
      [GetClient, GetNodesConfig,
       RunEditor (join_nl baseline_lines), CprintExn JSONDecodeError, ConfirmPrompt,
       RunEditor ''{'', CprintExn (EditorError ''Non-zero return code from editor''), ConfirmPrompt,
       RunEditor ''{''] @ acts"
    by simp
  from a b c d e g 1 2 show ?thesis by blast
qed


section \<open>The fields that the user deleted\<close>

lemma baseline_lines_split: "split_nl (join_nl baseline_lines) = baseline_lines"
  by (rule split_nl_join_nl) (simp_all add: baseline_lines_def)

lemma edited_lines_split: "split_nl (join_nl edited_lines) = edited_lines"
  by (rule split_nl_join_nl) (simp_all add: edited_lines_def)

lemma baseline_version: "getitem baseline_doc ''version'' = Inr (JInt 5)"
  by (simp add: getitem_def baseline_doc_def)

lemma baseline_timestamp: "getitem baseline_doc ''last_timestamp'' = Inr (JInt 1000)"
  by (simp add: getitem_def baseline_doc_def)

text \<open>
  A library that knows two more texts: \<^verbatim>\<open>[]\<close>, a list, and a dict without \<^verbatim>\<open>version\<close>
  and without \<^verbatim>\<open>last_timestamp\<close>. Reconciled at time 1700000000000, that dict has the items
  \<open>filled_items\<close>, which \<^verbatim>\<open>json.dumps\<close> sorts by key.
\<close>

definition omitted_lines :: "string list" where
  "omitted_lines =
     [''{'',
      ''    \"nodes\": []'',
      ''}'']"

definition filled_items :: "(string \<times> json) list" where
  "filled_items =
     [(''nodes'', JArr []), (''version'', JInt 6), (''last_timestamp'', JInt 1700000000000)]"

definition example_lib2 :: "string lib" where
  "example_lib2 =
     \<lparr>json_loads = (\<lambda>s. if s = ''[]'' then Some (JArr [])
                          else if s = join_nl omitted_lines then Some (JObj [(''nodes'', JArr [])])
                          else if s = join_nl baseline_lines then Some baseline_doc
                          else None),
      json_dumps = (\<lambda>d. join_nl (if d = JArr [] then [''[]'']
                                  else if d = baseline_doc then baseline_lines
                                  else if d = JObj [(''nodes'', JArr [])] then omitted_lines
                                  else if d = JObj filled_items then reconciled_lines
                                  else [''null''])),
      json_to_nodes_configuration = Inr,
      float_round = Finite\<rparr>"

definition list_saved :: answers where
  "list_saved = \<lparr>returncode = 0, saved_text = ''[]'', now_ms = 1700000000000, choice = ''1'',
     overwrite_error = None, try_again = True\<rparr>"

definition omitted_saved :: answers where
  "omitted_saved = \<lparr>returncode = 0, saved_text = join_nl omitted_lines, now_ms = 1700000000000,
     choice = ''1'', overwrite_error = None, try_again = False\<rparr>"

lemma omitted_lines_split: "split_nl (join_nl omitted_lines) = omitted_lines"
  by (rule split_nl_join_nl) (simp_all add: omitted_lines_def)

lemma example2_dumps_baseline: "json_dumps example_lib2 baseline_doc = join_nl baseline_lines"
  by (simp add: example_lib2_def baseline_doc_def)

lemma example2_dumps_list: "json_dumps example_lib2 (JArr []) = ''[]''"
  by (simp add: example_lib2_def join_nl_def)

lemma example2_dumps_omitted:
  "json_dumps example_lib2 (JObj [(''nodes'', JArr [])]) = join_nl omitted_lines"
  by (simp add: example_lib2_def baseline_doc_def)

lemma example2_dumps_filled: "json_dumps example_lib2 (JObj filled_items) = join_nl reconciled_lines"
  by (simp add: example_lib2_def baseline_doc_def filled_items_def)

lemma example2_loads_list: "json_loads example_lib2 ''[]'' = Some (JArr [])"
  by (simp add: example_lib2_def)

lemma example2_loads_omitted:
  "json_loads example_lib2 (join_nl omitted_lines) = Some (JObj [(''nodes'', JArr [])])"
  by (simp add: example_lib2_def join_nl_def omitted_lines_def)

lemma reconcile_omitted:
  "reconcile example_lib2 1700000000000 baseline_doc (JObj [(''nodes'', JArr [])]) =
     Inr (JObj filled_items)"
  by (simp add: reconcile_dict[OF baseline_version baseline_timestamp] dict_get_def setitem_def
      filled_items_def)

text \<open>
  C9 fails for an edit that parses and is not a dict. The user replaces the document with
  \<^verbatim>\<open>[]\<close> and saves; \<^verbatim>\<open>json.loads\<close> returns the empty list, the diff against the baseline
  has lines, and \<^verbatim>\<open>edited_nc.get\<close> raises \<^verbatim>\<open>AttributeError\<close>, which the \<^verbatim>\<open>except\<close> clause
  does not catch: the command ends with this exception after the editor, and nothing is
  serialized or written.
\<close>

theorem list_edit_not_written:
  "returncode list_saved = 0 \<and>
   json_loads example_lib2 (saved_text list_saved) = Some (JArr []) \<and>
   edit example_lib2 fetched [list_saved] =
     ([GetClient, GetNodesConfig, RunEditor (join_nl baseline_lines)], Uncaught AttributeError)"
proof -
  have a: "get_client fetched = None" by (simp add: fetched_def)
  have b: "get_nodes_config fetched = Inr baseline_doc" by (simp add: fetched_def)
  have rc: "returncode list_saved = 0" by (simp add: list_saved_def)
  have l: "json_loads example_lib2 (saved_text list_saved) = Some (JArr [])"
    by (simp add: list_saved_def example2_loads_list)
  have "split_nl ''[]'' = [''[]'']" by simp
  then have d: "split_nl (json_dumps example_lib2 (JArr [])) \<noteq>
                split_nl (json_dumps example_lib2 baseline_doc)"
    unfolding example2_dumps_list example2_dumps_baseline baseline_lines_split
    by (simp add: baseline_lines_def)
  have r: "reconcile example_lib2 (now_ms list_saved) baseline_doc (JArr []) = Inl AttributeError"
    by (simp add: reconcile_def reconcile_version_def)
  have "edit example_lib2 fetched [list_saved] =
     ([GetClient, GetNodesConfig, RunEditor (join_nl baseline_lines)], Uncaught AttributeError)"
    by (simp add: edit_fetched[OF a b] edit_loop_Cons attempt_reconcile_fails[OF rc l d r]
        example2_dumps_baseline del: edit_loop.simps(2))
  with rc l show ?thesis by blast
qed

text \<open>
  C9, as amended. The baseline has an integer version \<open>v\<close> and an integer timestamp. The
  session has got through the passes \<open>ps\<close> and goes on; in the next pass the editor exits
  with status 0, the text saved parses to a dict whose lines differ from the baseline's, and
  the user answers the prompt with anything but \<^verbatim>\<open>2\<close> and \<^verbatim>\<open>3\<close>. Then the reconciled dict has
  both keys, with version \<open>v + 1\<close> if the user left the version out and with the reading of
  the clock if the user left the timestamp out; its serialization is handed to
  \<^verbatim>\<open>json_to_nodes_configuration\<close>, and what that returns is handed to
  \<^verbatim>\<open>overwrite_nodes_configuration\<close>.
\<close>

theorem omitted_fields_written:
  assumes "get_client f = None" and "get_nodes_config f = Inr nc"
    and "getitem nc ''version'' = Inr (JInt v)"
    and "getitem nc ''last_timestamp'' = Inr (JInt t)"
    and "snd (edit L f ps) = Waiting"
    and "returncode w = 0" and "json_loads L (saved_text w) = Some (JObj m)"
    and "split_nl (json_dumps L (JObj m)) \<noteq> split_nl (json_dumps L nc)"
    and "choice w \<noteq> ''2''" and "choice w \<noteq> ''3''"
  shows "\<exists>m'. reconcile L (now_ms w) nc (JObj m) = Inr (JObj m') \<and>
           (map_of m ''version'' = None \<longrightarrow> map_of m' ''version'' = Some (JInt (v + 1))) \<and>
           (map_of m ''last_timestamp'' = None \<longrightarrow>
              map_of m' ''last_timestamp'' = Some (JInt (now_ms w))) \<and>
           map_of m' ''version'' \<noteq> None \<and> map_of m' ''last_timestamp'' \<noteq> None \<and>
           JsonToNodesConfiguration (json_dumps L (JObj m')) \<in> set (fst (edit L f (ps @ w # ws))) \<and>
           (\<forall>b. json_to_nodes_configuration L (json_dumps L (JObj m')) = Inr b \<longrightarrow>
                OverwriteNodesConfiguration b \<in> set (fst (edit L f (ps @ w # ws))))"
proof -
  obtain m' where r: "reconcile L (now_ms w) nc (JObj m) = Inr (JObj m')"
    and v: "map_of m ''version'' = None \<longrightarrow> map_of m' ''version'' = Some (JInt (v + 1))"
    and ts: "map_of m ''last_timestamp'' = None \<longrightarrow>
             map_of m' ''last_timestamp'' = Some (JInt (now_ms w))"
    and k: "map_of m' ''version'' \<noteq> None" "map_of m' ''last_timestamp'' \<noteq> None"
    by (auto simp add: reconcile_dict[OF assms(3,4)] Let_def map_of_setitem dict_get_def
        split: option.splits)
  note applied = attempt_applied[where formatted = "json_dumps L nc" and et = "last_saved ps",
      OF assms(6,7,8) r assms(9,10)]
  have j: "JsonToNodesConfiguration (json_dumps L (JObj m')) \<in> set (fst (edit L f (ps @ w # ws)))"
    by (rule edit_pass_actions[OF assms(1,2,5) applied(1)])
  have o: "OverwriteNodesConfiguration b \<in> set (fst (edit L f (ps @ w # ws)))"
    if "json_to_nodes_configuration L (json_dumps L (JObj m')) = Inr b" for b
    by (rule edit_pass_actions[OF assms(1,2,5) applied(2)[OF that]])
  have "\<forall>b. json_to_nodes_configuration L (json_dumps L (JObj m')) = Inr b \<longrightarrow>
          OverwriteNodesConfiguration b \<in> set (fst (edit L f (ps @ w # ws)))"
    using o by simp
  with r v ts k j show ?thesis by (intro exI[of _ m']) simp
qed

theorem omitted_fields_written_witness:
  "get_client fetched = None \<and> get_nodes_config fetched = Inr baseline_doc \<and>
   getitem baseline_doc ''version'' = Inr (JInt 5) \<and>
   getitem baseline_doc ''last_timestamp'' = Inr (JInt 1000) \<and>
   snd (edit example_lib2 fetched []) = Waiting \<and>
   returncode omitted_saved = 0 \<and>
   json_loads example_lib2 (saved_text omitted_saved) = Some (JObj [(''nodes'', JArr [])]) \<and>
   split_nl (json_dumps example_lib2 (JObj [(''nodes'', JArr [])])) \<noteq>
     split_nl (json_dumps example_lib2 baseline_doc) \<and>
   choice omitted_saved \<noteq> ''2'' \<and> choice omitted_saved \<noteq> ''3'' \<and>
   map_of [(''nodes'', JArr [])] ''version'' = None \<and>
   map_of [(''nodes'', JArr [])] ''last_timestamp'' = None \<and>
   reconcile example_lib2 (now_ms omitted_saved) baseline_doc (JObj [(''nodes'', JArr [])]) =
     Inr (JObj filled_items) \<and>
   map_of filled_items ''version'' = Some (JInt 6) \<and>
   map_of filled_items ''last_timestamp'' = Some (JInt 1700000000000) \<and>
   JsonToNodesConfiguration (join_nl reconciled_lines) \<in>
     set (fst (edit example_lib2 fetched [omitted_saved])) \<and>
   OverwriteNodesConfiguration (join_nl reconciled_lines) \<in>
     set (fst (edit example_lib2 fetched [omitted_saved]))"
proof -
  have a: "get_client fetched = None" by (simp add: fetched_def)
  have b: "get_nodes_config fetched = Inr baseline_doc" by (simp add: fetched_def)
  have c: "snd (edit example_lib2 fetched []) = Waiting" by (simp add: edit_no_pass[OF a b])
  have rc: "returncode omitted_saved = 0" by (simp add: omitted_saved_def)
  have l: "json_loads example_lib2 (saved_text omitted_saved) = Some (JObj [(''nodes'', JArr [])])"
    by (simp add: omitted_saved_def example2_loads_omitted)
  have d: "split_nl (json_dumps example_lib2 (JObj [(''nodes'', JArr [])])) \<noteq>
           split_nl (json_dumps example_lib2 baseline_doc)"
    unfolding example2_dumps_omitted example2_dumps_baseline baseline_lines_split
      omitted_lines_split
    by (simp add: baseline_lines_def omitted_lines_def)
  have c2: "choice omitted_saved \<noteq> ''2''" and c3: "choice omitted_saved \<noteq> ''3''"
    by (simp_all add: omitted_saved_def)
  have n: "now_ms omitted_saved = 1700000000000" by (simp add: omitted_saved_def)
  have r: "reconcile example_lib2 (now_ms omitted_saved) baseline_doc (JObj [(''nodes'', JArr [])]) =
           Inr (JObj filled_items)"
    unfolding n by (rule reconcile_omitted)
  have m1: "map_of [(''nodes'', JArr [])] ''version'' = None"
    and m2: "map_of [(''nodes'', JArr [])] ''last_timestamp'' = None" by simp_all
  have f1: "map_of filled_items ''version'' = Some (JInt 6)"
    and f2: "map_of filled_items ''last_timestamp'' = Some (JInt 1700000000000)"
    by (simp_all add: filled_items_def)
  have t: "json_to_nodes_configuration example_lib2 (join_nl reconciled_lines) =
           Inr (join_nl reconciled_lines)"
    by (simp add: example_lib2_def)
  from omitted_fields_written[OF a b baseline_version baseline_timestamp c rc l d c2 c3, of "[]"]
  have "JsonToNodesConfiguration (join_nl reconciled_lines) \<in>
          set (fst (edit example_lib2 fetched [omitted_saved])) \<and>
        OverwriteNodesConfiguration (join_nl reconciled_lines) \<in>
          set (fst (edit example_lib2 fetched [omitted_saved]))"
    unfolding r using t by (auto simp add: example2_dumps_filled simp del: edit_loop.simps)
  with a b baseline_version baseline_timestamp c rc l d c2 c3 m1 m2 r f1 f2
  show ?thesis by blast
qed


section \<open>The example session reaches the write\<close>

lemma example_loads_edited: "json_loads example_lib (join_nl edited_lines) = Some (JObj edited_items)"
  by (simp add: example_lib_def)

lemma example_dumps_edited: "json_dumps example_lib (JObj edited_items) = join_nl edited_lines"
  by (simp add: example_lib_def baseline_doc_def edited_items_def)

lemma example_dumps_reconciled:
  "json_dumps example_lib (JObj reconciled_items) = join_nl reconciled_lines"
  by (simp add: example_lib_def baseline_doc_def edited_items_def reconciled_items_def)

lemma reconcile_edited:
  "reconcile example_lib 1700000000000 baseline_doc (JObj edited_items) = Inr (JObj reconciled_items)"
  by (simp add: reconcile_dict[OF baseline_version baseline_timestamp] dict_get_def setitem_def
      edited_items_def reconciled_items_def)

lemma example_session_writes:
  "JsonToNodesConfiguration (join_nl reconciled_lines) \<in>
     set (fst (edit example_lib fetched [saved_and_applied])) \<and>
   OverwriteNodesConfiguration (join_nl reconciled_lines) \<in>
     set (fst (edit example_lib fetched [saved_and_applied]))"
proof -
  have a: "get_client fetched = None" by (simp add: fetched_def)
  have b: "get_nodes_config fetched = Inr baseline_doc" by (simp add: fetched_def)
  have c: "snd (edit example_lib fetched []) = Waiting" by (simp add: edit_no_pass[OF a b])
  have rc: "returncode saved_and_applied = 0" by (simp add: saved_and_applied_def)
  have l: "json_loads example_lib (saved_text saved_and_applied) = Some (JObj edited_items)"
    by (simp add: saved_and_applied_def example_loads_edited)
  have d: "split_nl (json_dumps example_lib (JObj edited_items)) \<noteq>
           split_nl (json_dumps example_lib baseline_doc)"
    unfolding example_dumps_edited example_dumps_baseline baseline_lines_split edited_lines_split
    by (simp add: baseline_lines_def edited_lines_def)
  have c2: "choice saved_and_applied \<noteq> ''2''" and c3: "choice saved_and_applied \<noteq> ''3''"
    by (simp_all add: saved_and_applied_def)
  have n: "now_ms saved_and_applied = 1700000000000" by (simp add: saved_and_applied_def)
  have r: "reconcile example_lib (now_ms saved_and_applied) baseline_doc (JObj edited_items) =
           Inr (JObj reconciled_items)"
    unfolding n by (rule reconcile_edited)
  have t: "json_to_nodes_configuration example_lib (json_dumps example_lib (JObj reconciled_items)) =
           Inr (join_nl reconciled_lines)"
    by (simp add: example_lib_def baseline_doc_def edited_items_def reconciled_items_def)
  note applied = attempt_applied[where formatted = "json_dumps example_lib baseline_doc"
      and et = "last_saved []", OF rc l d r c2 c3]
  have "JsonToNodesConfiguration (json_dumps example_lib (JObj reconciled_items)) \<in>
          set (fst (edit example_lib fetched ([] @ saved_and_applied # [])))"
    by (rule edit_pass_actions[OF a b c applied(1)])
  moreover have "OverwriteNodesConfiguration (join_nl reconciled_lines) \<in>
          set (fst (edit example_lib fetched ([] @ saved_and_applied # [])))"
    by (rule edit_pass_actions[OF a b c applied(2)[OF t]])
  ultimately show ?thesis
    unfolding example_dumps_reconciled append_Nil by blast
qed

theorem written_version_differs_witness:
  "get_nodes_config fetched = Inr baseline_doc \<and>
   getitem baseline_doc ''version'' = Inr (JInt 5) \<and>
   JsonToNodesConfiguration (join_nl reconciled_lines) \<in>
     set (fst (edit example_lib fetched [saved_and_applied])) \<and>
   OverwriteNodesConfiguration (join_nl reconciled_lines) \<in>
     set (fst (edit example_lib fetched [saved_and_applied])) \<and>
   (\<exists>edited_nc m' x.
      json_loads example_lib (saved_text saved_and_applied) = Some edited_nc \<and>
      reconcile example_lib (now_ms saved_and_applied) baseline_doc edited_nc = Inr (JObj m') \<and>
      join_nl reconciled_lines = json_dumps example_lib (JObj m') \<and>
      map_of m' ''version'' = Some x \<and> \<not> py_eq x (JInt 5)) \<and>
   (\<exists>edited_nc m' x.
      json_loads example_lib (saved_text saved_and_applied) = Some edited_nc \<and>
      reconcile example_lib (now_ms saved_and_applied) baseline_doc edited_nc = Inr (JObj m') \<and>
      json_to_nodes_configuration example_lib (json_dumps example_lib (JObj m')) =
        Inr (join_nl reconciled_lines) \<and>
      map_of m' ''version'' = Some x \<and> \<not> py_eq x (JInt 5))"
proof -
  have b: "get_nodes_config fetched = Inr baseline_doc" by (simp add: fetched_def)
  note th = written_version_differs[OF b baseline_version, of example_lib "[saved_and_applied]"]
  have 1: "\<exists>edited_nc m' x.
      json_loads example_lib (saved_text saved_and_applied) = Some edited_nc \<and>
      reconcile example_lib (now_ms saved_and_applied) baseline_doc edited_nc = Inr (JObj m') \<and>
      join_nl reconciled_lines = json_dumps example_lib (JObj m') \<and>
      map_of m' ''version'' = Some x \<and> \<not> py_eq x (JInt 5)"
    using th example_session_writes by (simp del: edit_loop.simps) blast
  have 2: "\<exists>edited_nc m' x.
      json_loads example_lib (saved_text saved_and_applied) = Some edited_nc \<and>
      reconcile example_lib (now_ms saved_and_applied) baseline_doc edited_nc = Inr (JObj m') \<and>
      json_to_nodes_configuration example_lib (json_dumps example_lib (JObj m')) =
        Inr (join_nl reconciled_lines) \<and>
      map_of m' ''version'' = Some x \<and> \<not> py_eq x (JInt 5)"
    using th example_session_writes by (simp del: edit_loop.simps) blast
  from b baseline_version example_session_writes 1 2 show ?thesis by blast
qed

section \<open>An edit that changes no line\<close>

text \<open>
  C5. The diff of a list of lines against itself is empty, so that \<^verbatim>\<open>next(diff, None)\<close> is
  \<^verbatim>\<open>None\<close>; and for any two lists \<^verbatim>\<open>next(diff, None)\<close> is \<^verbatim>\<open>None\<close> exactly when the diff
  has no line.
\<close>

theorem diff_self_has_no_changes:
  "unified_diff a a = [] \<and> next_or_none (unified_diff a a) = None \<and>
   (next_or_none (unified_diff a b) = None \<longleftrightarrow> unified_diff a b = [])"
  by (simp add: unified_diff_self)

text \<open>
  C3. A pass in which the editor exits with status 0, the saved text parses, and the
  document parsed is serialized to the same lines as the baseline: \<^verbatim>\<open>EditorError("No changes
  detected")\<close> is raised and caught, and the pass consists of the editor, the printed error
  and the question whether to try again. There is no \<^verbatim>\<open>ask_prompt\<close>, no call of
  \<^verbatim>\<open>json_to_nodes_configuration\<close> and none of \<^verbatim>\<open>overwrite_nodes_configuration\<close>.
\<close>

theorem unchanged_edit_fails:
  assumes "returncode w = 0"
    and "json_loads L (saved_text w) = Some edited_nc"
    and "split_nl (json_dumps L edited_nc) = split_nl (json_dumps L nc)"
  shows "attempt L nc formatted edited_text w =
     (Some (saved_text w),
      [RunEditor (case edited_text of None \<Rightarrow> formatted | Some t \<Rightarrow> t),
       CprintExn (EditorError ''No changes detected''), ConfirmPrompt],
      if try_again w then Continue else Break)"
  using assms
  by (simp add: attempt_def edit_text_with_editor_def handler_def Let_def unified_diff_self)

definition resaved :: answers where
  "resaved = \<lparr>returncode = 0, saved_text = join_nl baseline_lines, now_ms = 1700000000000,
     choice = ''1'', overwrite_error = None, try_again = False\<rparr>"

lemma texts_differ: "join_nl baseline_lines \<noteq> join_nl edited_lines"
  by (simp add: join_nl_def baseline_lines_def edited_lines_def)

lemma example_loads_baseline: "json_loads example_lib (join_nl baseline_lines) = Some baseline_doc"
  using texts_differ by (simp add: example_lib_def)

theorem unchanged_edit_fails_witness:
  "returncode resaved = 0 \<and>
   json_loads example_lib (saved_text resaved) = Some baseline_doc \<and>
   attempt example_lib baseline_doc (join_nl baseline_lines) None resaved =
     (Some (join_nl baseline_lines),
      [RunEditor (join_nl baseline_lines),
       CprintExn (EditorError ''No changes detected''), ConfirmPrompt],
      Break)"
proof -
  have a: "returncode resaved = 0" by (simp add: resaved_def)
  have s: "saved_text resaved = join_nl baseline_lines" by (simp add: resaved_def)
  have t: "\<not> try_again resaved" by (simp add: resaved_def)
  have b: "json_loads example_lib (saved_text resaved) = Some baseline_doc"
    unfolding s by (rule example_loads_baseline)
  from unchanged_edit_fails[OF a b refl, of "join_nl baseline_lines" None] a b s t
  show ?thesis by simp
qed

end
